theory Spec2Isabelle
  imports Main "HOL-Library.Word"
begin

unbundle bit_operations_syntax

section \<open>Data model of main.cpp\<close>

text \<open>
  Bytes (\<open>byte\<close>, \<open>uint8_t\<close>) are 8-bit words, \<open>uint32_t\<close> is a 32-bit word, C \<open>int\<close>
  values that take part in arithmetic are read as mathematical integers where the code
  cannot overflow and as words where the width matters. An open \<open>FILE *\<close> is a handle
  number. The three outcomes of a conversion that the source reports with
  \<open>return false\<close> are \<open>IoError\<close> (a failed \<open>fread\<close>/\<open>fopen\<close>) and \<open>FormatError\<close>
  (a "Bad ... file" message); \<open>UndefinedBehaviour\<close> marks an execution in which the C
  code reads or writes outside an allocated object. The source has no test at those
  places: the value only records that C gives the run no meaning.
\<close>

type_synonym byte = "8 word"
type_synonym handle = nat

datatype error = IoError | FormatError | UndefinedBehaviour

text \<open>
  The structs of main.cpp. Field names carry a prefix since several structs have a
  field \<open>name\<close> and \<open>offset\<close>: \<open>fe_\<close> for \<open>fileEntry\<close>, \<open>pf_\<close> for \<open>fsPackFile_t\<close>,
  \<open>pk_\<close> for \<open>fsPack_t\<close>. A \<open>char[256]\<close> name is the C string it holds.
\<close>

record fsPackFile_t =
  pf_name :: string
  pf_size :: int
  pf_offset :: int

record fsPack_t =
  pk_name :: string
  pk_numFiles :: int
  pk_pak :: handle
  pk_files :: "fsPackFile_t list"

record fileEntry =
  fe_name :: string
  fe_file :: handle
  fe_offset :: int
  fe_length :: int

section \<open>The catalog: \<open>entries\<close>, \<open>loadPak\<close>, the loose-file branch of \<open>readDir\<close>, \<open>findEntry\<close>\<close>









section \<open>The palette table: the loop of \<open>loadPalette\<close>\<close>

text \<open>
  \<open>d_8to24table\<close> is a global \<open>uint32_t[256]\<close>: a list of 256 words, passed in and
  returned. \<open>palette\<close> is the 768 byte block read from the end of the colormap entry.
  \<open>LittleLong\<close> is the identity macro. Each of \<open>r\<close>, \<open>g\<close>, \<open>b\<close> is a byte widened to
  \<open>uint32_t\<close>.
\<close>

definition palette_word :: "byte list \<Rightarrow> nat \<Rightarrow> 32 word" where
  "palette_word palette i =
     (let r = (ucast (palette ! (i * 3 + 0)) :: 32 word);
          g = (ucast (palette ! (i * 3 + 1)) :: 32 word);
          b = (ucast (palette ! (i * 3 + 2)) :: 32 word)
      in push_bit 24 255 + push_bit 0 r + push_bit 8 g + push_bit 16 b)"

function loadPalette_loop :: "byte list \<Rightarrow> nat \<Rightarrow> 32 word list \<Rightarrow> 32 word list" where
  "loadPalette_loop palette i d_8to24table =
     (if i < 256
      then loadPalette_loop palette (i + 1) (d_8to24table[i := palette_word palette i])
      else d_8to24table)"
  by pat_completeness auto
termination
  by (relation "measure (\<lambda>(palette, i, t). 256 - i)") auto

declare loadPalette_loop.simps [simp del]

definition loadPalette_table :: "byte list \<Rightarrow> 32 word list \<Rightarrow> 32 word list" where
  "loadPalette_table palette d_8to24table =
     (let t = loadPalette_loop palette 0 d_8to24table
      in t[255 := (t ! 255) AND 0xffffff])"

text \<open>The channels of a table entry as \<open>writePng\<close> (RGBA, little endian) reads them.\<close>

definition red :: "32 word \<Rightarrow> byte" where "red v = ucast v"
definition green :: "32 word \<Rightarrow> byte" where "green v = ucast (drop_bit 8 v)"
definition blue :: "32 word \<Rightarrow> byte" where "blue v = ucast (drop_bit 16 v)"
definition alpha :: "32 word \<Rightarrow> byte" where "alpha v = ucast (drop_bit 24 v)"

section \<open>The archive reader: \<open>FS_LoadPAK\<close>\<close>

text \<open>
  Modelled from the spec: the on-disk structs \<open>dpackheader_t\<close> and \<open>dpackfile_t\<close> and the
  constants \<open>IDPAKHEADER\<close> and \<open>MAX_FILES_IN_PACK\<close> are declared in files.h, which is not
  under src/. The spec (4.1, 6) gives the header as a 4-byte magic, an int32 directory
  offset and an int32 directory byte length, which makes \<open>sizeof(dpackheader_t)\<close> 12, and a
  directory record as a fixed-length name field followed by an int32 file offset and an
  int32 file length. The magic, the maximum and the length of the name field are
  parameters; the record has no padding (the name field of the legacy format has 56
  bytes, a multiple of 4).
\<close>

record files_h =
  IDPAKHEADER :: "32 word"
  MAX_FILES_IN_PACK :: int
  sizeof_name :: nat

definition sizeof_dpackheader_t :: nat where
  "sizeof_dpackheader_t = 12"

definition sizeof_dpackfile_t :: "files_h \<Rightarrow> nat" where
  "sizeof_dpackfile_t H = sizeof_name H + 8"

text \<open>
  The \<open>int\<close> at position \<open>p\<close> of a region of memory. \<open>LittleLong(x)\<close> is \<open>x\<close>: the program
  takes the fields in the byte order of its host, which for this definition of
  \<open>LittleLong\<close> is the little-endian order of the format.
\<close>

definition le32 :: "byte list \<Rightarrow> nat \<Rightarrow> 32 word" where
  "le32 m p = word_of_nat (unat (m ! p) + 256 * unat (m ! (p + 1)) +
                           65536 * unat (m ! (p + 2)) + 16777216 * unat (m ! (p + 3)))"

text \<open>
  What \<open>strncpy(dst, src, n)\<close> makes of the memory \<open>m\<close> that starts at \<open>src\<close>: the
  characters up to the first zero byte, at most \<open>n\<close> of them. The copy does not stop at
  the end of the field that \<open>src\<close> names.
\<close>

definition c_string :: "nat \<Rightarrow> byte list \<Rightarrow> string" where
  "c_string n m = map (\<lambda>b. char_of (unat b)) (takeWhile (\<lambda>b. b \<noteq> 0) (take n m))"

text \<open>
  The buffer \<open>buf\<close> after \<open>fread(buf, 1, n, f)\<close> at the position \<open>pos\<close> of a file with the
  contents \<open>content\<close>: the bytes that the file holds there, at most \<open>n\<close>, followed by what
  the buffer held behind them. The result is longer than \<open>buf\<close> when the file delivers
  more bytes than the buffer has.
\<close>

definition fread_into :: "byte list \<Rightarrow> byte list \<Rightarrow> nat \<Rightarrow> nat \<Rightarrow> byte list" where
  "fread_into buf content pos n =
     take n (drop pos content) @ drop (length (take n (drop pos content))) buf"

text \<open>
  One container file as \<open>FS_LoadPAK\<close> meets it: the handle that \<open>fopen\<close> returns, the
  bytes of the file, and what the stack holds where the function has its variables:
  \<open>ps_header0\<close> the 12 bytes of \<open>header\<close>, \<open>ps_info0\<close> the bytes of the array \<open>info\<close> and of
  the memory behind it. Neither \<open>fread\<close> result is looked at, so the bytes that a short
  file does not deliver stay what they were.
\<close>

record pak_source =
  ps_handle :: handle
  ps_bytes :: "byte list"
  ps_header0 :: "byte list"
  ps_info0 :: "byte list"

text \<open>
  \<open>numFiles = header.dirlen / sizeof(dpackfile_t)\<close>: the \<open>int\<close> is converted to the
  64-bit unsigned \<open>size_t\<close> (sign extension), divided, and the quotient is truncated to
  \<open>int\<close>.
\<close>

definition numFiles_of :: "files_h \<Rightarrow> 32 word \<Rightarrow> int" where
  "numFiles_of H dirlen =
     sint (ucast ((scast dirlen :: 64 word) div
                  (word_of_nat (sizeof_dpackfile_t H) :: 64 word)) :: 32 word)"

text \<open>
  The loop "Parse the directory" over the memory \<open>mem\<close> of \<open>info\<close>: \<open>files[i]\<close> is written
  for \<open>i = 0, 1, ...\<close> in turn from the record at \<open>i * sizeof(dpackfile_t)\<close>.
\<close>

function FS_LoadPAK_loop ::
  "files_h \<Rightarrow> byte list \<Rightarrow> int \<Rightarrow> int \<Rightarrow> fsPackFile_t list \<Rightarrow> fsPackFile_t list" where
  "FS_LoadPAK_loop H mem i numFiles files =
     (if i < numFiles
      then FS_LoadPAK_loop H mem (i + 1) numFiles
             (files @ [\<lparr> pf_name = c_string 256 (drop (nat i * sizeof_dpackfile_t H) mem),
                         pf_size = sint (le32 mem (nat i * sizeof_dpackfile_t H
                                                   + sizeof_name H + 4)),
                         pf_offset = sint (le32 mem (nat i * sizeof_dpackfile_t H
                                                     + sizeof_name H)) \<rparr>])
      else files)"
  by pat_completeness auto
termination
  by (relation "measure (\<lambda>(H, mem, i, numFiles, files). nat (numFiles - i))") auto

declare FS_LoadPAK_loop.simps [simp del]

text \<open>
  \<open>FS_LoadPAK\<close>. \<open>None\<close> for the source is a failed \<open>fopen\<close>; \<open>Inr None\<close> is the null pointer
  that the function returns. The header is read at position 0. \<open>fseek\<close> to a negative
  \<open>dirofs\<close> fails and leaves the position behind the header; \<open>fread\<close> takes \<open>dirlen\<close> as a
  \<open>size_t\<close>. The array \<open>info\<close> has \<open>MAX_FILES_IN_PACK\<close> records: a file that delivers more
  bytes makes \<open>fread\<close> store behind it. \<open>malloc\<close> is taken to succeed.
\<close>

definition FS_LoadPAK ::
  "files_h \<Rightarrow> string \<Rightarrow> pak_source option \<Rightarrow> error + fsPack_t option" where
  "FS_LoadPAK H packPath src =
     (case src of
        None \<Rightarrow> Inr None
      | Some f \<Rightarrow>
          let header = fread_into (ps_header0 f) (ps_bytes f) 0 sizeof_dpackheader_t;
              ident = le32 header 0;
              dirofs = le32 header 4;
              dirlen = le32 header 8
          in if ident \<noteq> IDPAKHEADER H then Inr None
             else
               let numFiles = numFiles_of H dirlen in
               if numFiles > MAX_FILES_IN_PACK H \<or> numFiles = 0 then Inr None
               else
                 let pos = (if sint dirofs < 0
                            then min sizeof_dpackheader_t (length (ps_bytes f))
                            else nat (sint dirofs));
                     info = fread_into (ps_info0 f) (ps_bytes f) pos
                              (unat (scast dirlen :: 64 word))
                 in if nat (MAX_FILES_IN_PACK H) * sizeof_dpackfile_t H
                         < length (take (unat (scast dirlen :: 64 word)) (drop pos (ps_bytes f)))
                    then Inl UndefinedBehaviour
                    else Inr (Some \<lparr> pk_name = take 256 packPath,
                                     pk_numFiles = numFiles,
                                     pk_pak = ps_handle f,
                                     pk_files = FS_LoadPAK_loop H info 0 numFiles [] \<rparr>))"

section \<open>Files and \<open>fread\<close>\<close>

text \<open>
  The contents of the open files, by handle. \<open>fread(buf, size, 1, f)\<close> after a seek to
  \<open>pos\<close> returns 1 exactly when \<open>size\<close> (here \<open>sz\<close>) is positive and the file holds that many bytes from
  \<open>pos\<close> on; the model then yields the bytes.
\<close>

type_synonym filesystem = "handle \<Rightarrow> byte list"

definition fread1 :: "byte list \<Rightarrow> int \<Rightarrow> int \<Rightarrow> byte list option" where
  "fread1 content pos sz =
     (if 0 \<le> pos \<and> 0 < sz \<and> pos + sz \<le> int (length content)
      then Some (take (nat sz) (drop (nat pos) content))
      else None)"

text \<open>C division of \<open>long\<close> values truncates towards zero.\<close>

definition c_div :: "int \<Rightarrow> int \<Rightarrow> int" where
  "c_div a b = sgn a * sgn b * (\<bar>a\<bar> div \<bar>b\<bar>)"

text \<open>The conversion of a value to the 32-bit \<open>int\<close>.\<close>

definition to_int32 :: "int \<Rightarrow> int" where
  "to_int32 v = sint (word_of_int v :: 32 word)"

text \<open>The colour conversion loop \<open>out[i] = d_8to24table[out1[i]]\<close>.\<close>

definition colorize :: "32 word list \<Rightarrow> byte list \<Rightarrow> 32 word list" where
  "colorize d_8to24table out1 = map (\<lambda>b. d_8to24table ! unat b) out1"

text \<open>What a converter hands to \<open>writePng\<close>: width, height and the RGBA buffer.\<close>

type_synonym png = "int \<times> int \<times> 32 word list"

section \<open>The raw mip image decoder: \<open>convertWal\<close>\<close>

text \<open>
  Modelled from the spec: the header type \<open>miptex_t\<close> is declared in files.h, which is not
  under src/. The spec (4.5) gives it a width, a height and an array of four mip-level
  byte offsets; in the legacy format these are 32-bit unsigned fields.
\<close>

record miptex_t =
  mt_width :: "32 word"
  mt_height :: "32 word"
  mt_offsets :: "32 word list"

text \<open>
  \<open>mt\<close> is the header as the first \<open>fread\<close> delivered it (\<open>None\<close>: the read failed). In
  the validity test the unsigned fields are compared and divided as \<open>long\<close>, after the
  subtraction from the \<open>long\<close> entry length. \<open>fullsize\<close> is the 32-bit unsigned product
  converted to \<open>int\<close>; the seek position \<open>entry.offset + mt.offsets[0]\<close> is a 32-bit
  unsigned sum. A negative \<open>fullsize\<close> makes \<open>malloc\<close> and \<open>fread\<close> work on a size the
  process cannot have. After the read, \<open>malloc(fullsize * 4)\<close> multiplies in \<open>int\<close>: for
  a \<open>fullsize\<close> of \<open>2^29\<close> or more the product overflows, the buffer gets the wrapped
  size and the loop \<open>out[i] = d_8to24table[raw[i]]\<close> stores behind it. \<open>writePng\<close> takes
  the unsigned \<open>mt.width\<close> and \<open>mt.height\<close> as \<open>int\<close> parameters. Both \<open>malloc\<close> calls are
  taken to succeed.
\<close>

definition convertWal ::
  "32 word list \<Rightarrow> filesystem \<Rightarrow> fileEntry \<Rightarrow> miptex_t option \<Rightarrow> error + png" where
  "convertWal d_8to24table fs entry hdr =
     (case hdr of
        None \<Rightarrow> Inl IoError
      | Some mt \<Rightarrow>
          if uint (mt_offsets mt ! 0) \<le> 0 \<or> uint (mt_width mt) \<le> 0 \<or> uint (mt_height mt) \<le> 0 \<or>
             c_div (fe_length entry - uint (mt_offsets mt ! 0)) (uint (mt_height mt))
               < uint (mt_width mt)
          then Inl FormatError
          else
            let fullsize = sint (mt_width mt * mt_height mt);
                pos = uint (word_of_int (fe_offset entry) + mt_offsets mt ! 0 :: 32 word)
            in if fullsize < 0 then Inl UndefinedBehaviour
               else (case fread1 (fs (fe_file entry)) pos fullsize of
                       None \<Rightarrow> Inl IoError
                     | Some raw \<Rightarrow>
                         if 2 ^ 31 \<le> fullsize * 4 then Inl UndefinedBehaviour
                         else Inr (sint (mt_width mt), sint (mt_height mt),
                                   colorize d_8to24table raw)))"

section \<open>HaloRepair: \<open>FloodFillSkin\<close>\<close>

text \<open>
  A \<open>floodfill_t\<close> is a pair of \<open>short\<close> coordinates; \<open>to_short\<close> is the conversion of an
  \<open>int\<close> to \<open>short\<close> that the assignments \<open>fifo[inpt].x = x + (dx)\<close> perform. The array
  \<open>fifo\<close> is indexed through the mask only, so it is a function on slot numbers; its
  contents before the first store are whatever the stack held (\<open>garbage\<close> below).
\<close>

type_synonym floodfill_t = "int \<times> int"

definition FLOODFILL_FIFO_SIZE :: nat where
  "FLOODFILL_FIFO_SIZE = 0x1000"

definition FLOODFILL_FIFO_MASK :: nat where
  "FLOODFILL_FIFO_MASK = FLOODFILL_FIFO_SIZE - 1"

definition to_short :: "int \<Rightarrow> int" where
  "to_short v = sint (word_of_int v :: 16 word)"

text \<open>
  The variables of \<open>FloodFillSkin\<close> that change in the loop. The last three fields are
  not in the source: \<open>enq\<close> and \<open>deq\<close> count the stores into and the loads from \<open>fifo\<close>,
  \<open>peak\<close> is the largest number of stored and not yet loaded coordinates seen so far.
  Nothing reads them but the statements about the queue.
\<close>

record ff_state =
  skin :: "byte list"
  fifo :: "nat \<Rightarrow> floodfill_t"
  inpt :: nat
  outpt :: nat
  fdc :: int
  enq :: nat
  deq :: nat
  peak :: nat

text \<open>
  "attempt to find opaque black": the loop over \<open>d_8to24table\<close> with the test
  \<open>d_8to24table[i] == (255 << 0)\<close>; 0 when no entry passes.
\<close>

function find_filledcolor :: "32 word list \<Rightarrow> nat \<Rightarrow> int" where
  "find_filledcolor d_8to24table i =
     (if i < 256
      then (if d_8to24table ! i = push_bit 0 255 then int i
            else find_filledcolor d_8to24table (i + 1))
      else 0)"
  by pat_completeness auto
termination
  by (relation "measure (\<lambda>(t, i). 256 - i)") auto

declare find_filledcolor.simps [simp del]

text \<open>
  The macro \<open>FLOODFILL_STEP(off, dx, dy)\<close> at the pixel \<open>pos = &skin[x + skinwidth * y]\<close>.
  \<open>None\<close> is an access outside the buffer.
\<close>

definition FLOODFILL_STEP ::
  "byte \<Rightarrow> int \<Rightarrow> int \<Rightarrow> int \<Rightarrow> int \<Rightarrow> int \<Rightarrow> int \<Rightarrow> ff_state \<Rightarrow> ff_state option" where
  "FLOODFILL_STEP fillcolor pos x y off dx dy s =
     (if pos + off < 0 \<or> int (length (skin s)) \<le> pos + off then None
      else if skin s ! nat (pos + off) = fillcolor
      then Some (s\<lparr> skin := (skin s)[nat (pos + off) := 255],
                    fifo := (fifo s)(inpt s := (to_short (x + dx), to_short (y + dy))),
                    inpt := (inpt s + 1) AND FLOODFILL_FIFO_MASK,
                    enq := enq s + 1,
                    peak := max (peak s) (enq s + 1 - deq s) \<rparr>)
      else if skin s ! nat (pos + off) \<noteq> 255
      then Some (s\<lparr> fdc := uint (skin s ! nat (pos + off)) \<rparr>)
      else Some s)"

text \<open>One pass through the body of \<open>while (outpt != inpt)\<close>.\<close>

definition ff_body :: "byte \<Rightarrow> int \<Rightarrow> int \<Rightarrow> int \<Rightarrow> ff_state \<Rightarrow> ff_state option" where
  "ff_body fillcolor filledcolor skinwidth skinheight s =
     (let x = fst (fifo s (outpt s));
          y = snd (fifo s (outpt s));
          pos = x + skinwidth * y;
          s0 = s\<lparr> fdc := filledcolor,
                  outpt := (outpt s + 1) AND FLOODFILL_FIFO_MASK,
                  deq := deq s + 1 \<rparr>
      in Option.bind
           (if x > 0 then FLOODFILL_STEP fillcolor pos x y (- 1) (- 1) 0 s0 else Some s0)
        (\<lambda>s1. Option.bind
           (if x < skinwidth - 1 then FLOODFILL_STEP fillcolor pos x y 1 1 0 s1 else Some s1)
        (\<lambda>s2. Option.bind
           (if y > 0 then FLOODFILL_STEP fillcolor pos x y (- skinwidth) 0 (- 1) s2 else Some s2)
        (\<lambda>s3. Option.bind
           (if y < skinheight - 1 then FLOODFILL_STEP fillcolor pos x y skinwidth 0 1 s3
            else Some s3)
        (\<lambda>s4. if pos < 0 \<or> int (length (skin s4)) \<le> pos then None
               else Some (s4\<lparr> skin := (skin s4)[nat pos := word_of_int (fdc s4)] \<rparr>))))))"

text \<open>
  The loop. It has no bound of its own: a run that never leaves it, or that accesses
  outside the buffer, has the value \<open>None\<close>.
\<close>

partial_function (option) ff_loop ::
  "byte \<Rightarrow> int \<Rightarrow> int \<Rightarrow> int \<Rightarrow> ff_state \<Rightarrow> ff_state option" where
  "ff_loop fillcolor filledcolor skinwidth skinheight s =
     (if outpt s = inpt s then Some s
      else Option.bind (ff_body fillcolor filledcolor skinwidth skinheight s)
             (ff_loop fillcolor filledcolor skinwidth skinheight))"

text \<open>
  \<open>FloodFillSkin\<close> on the buffer \<open>skin0\<close>; \<open>byte fillcolor = *skin\<close> reads its first byte.
\<close>

definition FloodFillSkin_run ::
  "32 word list \<Rightarrow> (nat \<Rightarrow> floodfill_t) \<Rightarrow> byte list \<Rightarrow> int \<Rightarrow> int \<Rightarrow> ff_state option" where
  "FloodFillSkin_run d_8to24table garbage skin0 skinwidth skinheight =
     (case skin0 of
        [] \<Rightarrow> None
      | fillcolor # rest \<Rightarrow>
          let filledcolor = find_filledcolor d_8to24table 0 in
          if uint fillcolor = filledcolor \<or> fillcolor = 255
          then Some \<lparr> skin = skin0, fifo = garbage, inpt = 0, outpt = 0,
                      fdc = filledcolor, enq = 0, deq = 0, peak = 0 \<rparr>
          else ff_loop fillcolor filledcolor skinwidth skinheight
                 \<lparr> skin = skin0, fifo = garbage(0 := (0, 0)),
                   inpt = (0 + 1) AND FLOODFILL_FIFO_MASK, outpt = 0,
                   fdc = filledcolor, enq = 1, deq = 0, peak = 1 \<rparr>)"

definition FloodFillSkin ::
  "32 word list \<Rightarrow> (nat \<Rightarrow> floodfill_t) \<Rightarrow> byte list \<Rightarrow> int \<Rightarrow> int \<Rightarrow> byte list option" where
  "FloodFillSkin d_8to24table garbage skin0 skinwidth skinheight =
     map_option skin (FloodFillSkin_run d_8to24table garbage skin0 skinwidth skinheight)"

section \<open>The run-length image decoder: \<open>convertPcx\<close>\<close>

text \<open>
  Modelled from the spec: the header type \<open>pcx_t\<close> is declared in files.h, which is not
  under src/. The spec (4.4, 6) names the manufacturer, version, encoding and bit-depth
  fields and the min/max bounding fields; in the legacy format the first four are single
  bytes and the bounds are 16-bit unsigned.
\<close>

record pcx_t =
  manufacturer :: byte
  version :: byte
  encoding :: byte
  bits_per_pixel :: byte
  xmin :: "16 word"
  ymin :: "16 word"
  xmax :: "16 word"
  ymax :: "16 word"

text \<open>
  \<open>while (runLength-- > 0) pix[x++] = dataByte;\<close> with \<open>pix\<close> the offset of the row in
  \<open>out1\<close>. The source does not test the index; a store outside the buffer is
  \<open>UndefinedBehaviour\<close>.
\<close>

fun pcx_run :: "byte list \<Rightarrow> int \<Rightarrow> int \<Rightarrow> byte \<Rightarrow> nat \<Rightarrow> error + (byte list \<times> int)" where
  "pcx_run out1 pix x dataByte 0 = Inr (out1, x)"
| "pcx_run out1 pix x dataByte (Suc runLength) =
     (if pix + x < 0 \<or> int (length out1) \<le> pix + x then Inl UndefinedBehaviour
      else pcx_run (out1[nat (pix + x) := dataByte]) pix (x + 1) dataByte runLength)"

text \<open>
  The inner loop \<open>for (x = 0; x <= pcx_width; )\<close>. \<open>raw\<close> is the part of the payload that
  \<open>*raw++\<close> has not consumed yet; reading past its end is \<open>UndefinedBehaviour\<close>.
\<close>

function pcx_row ::
  "byte list \<Rightarrow> byte list \<Rightarrow> int \<Rightarrow> int \<Rightarrow> int \<Rightarrow> error + (byte list \<times> byte list)" where
  "pcx_row raw out1 pix x pcx_width =
     (if x \<le> pcx_width
      then (case raw of
              [] \<Rightarrow> Inl UndefinedBehaviour
            | dataByte # raw1 \<Rightarrow>
                if dataByte AND 0xC0 = 0xC0
                then (case raw1 of
                        [] \<Rightarrow> Inl UndefinedBehaviour
                      | dataByte2 # raw2 \<Rightarrow>
                          (case pcx_run out1 pix x dataByte2 (unat (dataByte AND 0x3F)) of
                             Inl e \<Rightarrow> Inl e
                           | Inr (out2, x2) \<Rightarrow> pcx_row raw2 out2 pix x2 pcx_width))
                else (case pcx_run out1 pix x dataByte 1 of
                        Inl e \<Rightarrow> Inl e
                      | Inr (out2, x2) \<Rightarrow> pcx_row raw1 out2 pix x2 pcx_width))
      else Inr (raw, out1))"
  by pat_completeness auto
termination
  by (relation "measure (\<lambda>(raw, out1, pix, x, pcx_width). length raw)") auto

declare pcx_row.simps [simp del]

text \<open>The outer loop \<open>for (y = 0; y <= pcx_height; y++, pix += pcx_width + 1)\<close>.\<close>

function pcx_rows ::
  "byte list \<Rightarrow> byte list \<Rightarrow> int \<Rightarrow> int \<Rightarrow> int \<Rightarrow> int \<Rightarrow> error + byte list" where
  "pcx_rows raw out1 pix y pcx_width pcx_height =
     (if y \<le> pcx_height
      then (case pcx_row raw out1 pix 0 pcx_width of
              Inl e \<Rightarrow> Inl e
            | Inr (raw', out2) \<Rightarrow>
                pcx_rows raw' out2 (pix + (pcx_width + 1)) (y + 1) pcx_width pcx_height)
      else Inr out1)"
  by pat_completeness auto
termination
  by (relation "measure (\<lambda>(raw, out1, pix, y, pcx_width, pcx_height). nat (pcx_height + 1 - y))")
     auto

declare pcx_rows.simps [simp del]

text \<open>
  The decoding part of \<open>convertPcx\<close>: \<open>out1 = malloc(full_size)\<close> holds \<open>heap\<close>, the bytes
  the allocator left there, and the loops fill it from the payload \<open>raw_b\<close>.
\<close>

definition pcx_decode :: "(nat \<Rightarrow> byte) \<Rightarrow> byte list \<Rightarrow> int \<Rightarrow> int \<Rightarrow> error + byte list" where
  "pcx_decode heap raw_b pcx_width pcx_height =
     (let full_size = (pcx_height + 1) * (pcx_width + 1);
          out1 = map heap [0..<nat full_size]
      in pcx_rows raw_b out1 0 0 pcx_width pcx_height)"

text \<open>
  The image as the specification describes the decoding, without a buffer. The pixels of
  one row (\<open>pcx_row_pixels\<close>): runs are taken from the payload, a control byte with its
  two high bits set giving the count of the byte that follows and any other byte standing
  for itself, until more than \<open>w\<close> pixels have come together; the result is the pixels of
  all these runs, which can be more than the \<open>w + 1\<close> of the row, and the rest of the
  payload. The image of \<open>k\<close> rows (\<open>pcx_image\<close>): row after row, each reading on where the
  row before it stopped and contributing its first \<open>w + 1\<close> pixels; there is no image
  when the payload ends early or when the runs of a row have more pixels than the rows
  from it to the last have cells.
\<close>

function pcx_row_pixels :: "byte list \<Rightarrow> nat \<Rightarrow> nat \<Rightarrow> (byte list \<times> byte list) option" where
  "pcx_row_pixels raw x w =
     (if x \<le> w
      then (case raw of
              [] \<Rightarrow> None
            | d # raw1 \<Rightarrow>
                if d AND 0xC0 = 0xC0
                then (case raw1 of
                        [] \<Rightarrow> None
                      | v # raw2 \<Rightarrow>
                          (case pcx_row_pixels raw2 (x + unat (d AND 0x3F)) w of
                             None \<Rightarrow> None
                           | Some (px, rest) \<Rightarrow>
                               Some (replicate (unat (d AND 0x3F)) v @ px, rest)))
                else (case pcx_row_pixels raw1 (x + 1) w of
                        None \<Rightarrow> None
                      | Some (px, rest) \<Rightarrow> Some (d # px, rest)))
      else Some ([], raw))"
  by pat_completeness auto
termination
  by (relation "measure (\<lambda>(raw, x, w). length raw)") auto

declare pcx_row_pixels.simps [simp del]

fun pcx_image :: "byte list \<Rightarrow> nat \<Rightarrow> nat \<Rightarrow> byte list option" where
  "pcx_image raw 0 w = Some []"
| "pcx_image raw (Suc k) w =
     (case pcx_row_pixels raw 0 w of
        None \<Rightarrow> None
      | Some (px, rest) \<Rightarrow>
          if Suc k * (w + 1) < length px then None
          else (case pcx_image rest k w of
                  None \<Rightarrow> None
                | Some img \<Rightarrow> Some (take (w + 1) px @ img)))"

text \<open>
  \<open>convertPcx\<close>. \<open>hdr\<close> is the header as the first \<open>fread\<close> delivered it (\<open>None\<close>: the read
  failed), \<open>sizeof_pcx\<close> is \<open>sizeof(pcx)\<close>. The payload is read from where the header
  ended; \<open>datalen\<close> is the \<open>long\<close> difference converted to \<open>int\<close>.
\<close>

definition convertPcx ::
  "32 word list \<Rightarrow> (nat \<Rightarrow> floodfill_t) \<Rightarrow> (nat \<Rightarrow> byte) \<Rightarrow> filesystem \<Rightarrow> nat \<Rightarrow>
   fileEntry \<Rightarrow> pcx_t option \<Rightarrow> bool \<Rightarrow> error + png" where
  "convertPcx d_8to24table garbage heap fs sizeof_pcx entry hdr isSkin =
     (case hdr of
        None \<Rightarrow> Inl IoError
      | Some pcx \<Rightarrow>
          let pcx_width = uint (xmax pcx) - uint (xmin pcx);
              pcx_height = uint (ymax pcx) - uint (ymin pcx)
          in if manufacturer pcx \<noteq> 0x0a \<or> version pcx \<noteq> 5 \<or>
                encoding pcx \<noteq> 1 \<or> bits_per_pixel pcx \<noteq> 8 \<or>
                pcx_width \<ge> 4096 \<or> pcx_height \<ge> 4096
             then Inl FormatError
             else
               let datalen = to_int32 (fe_length entry - int sizeof_pcx) in
               if datalen < 0 then Inl UndefinedBehaviour
               else (case fread1 (fs (fe_file entry)) (fe_offset entry + int sizeof_pcx) datalen of
                       None \<Rightarrow> Inl IoError
                     | Some raw_b \<Rightarrow>
                         (case pcx_decode heap raw_b pcx_width pcx_height of
                            Inl e \<Rightarrow> Inl e
                          | Inr out1 \<Rightarrow>
                              (case (if isSkin
                                     then FloodFillSkin d_8to24table garbage out1
                                            (pcx_width + 1) (pcx_height + 1)
                                     else Some out1) of
                                 None \<Rightarrow> Inl UndefinedBehaviour
                               | Some out2 \<Rightarrow>
                                   Inr (pcx_width + 1, pcx_height + 1,
                                        colorize d_8to24table out2)))))"

section \<open>The conversion loop of \<open>main\<close>\<close>

text \<open>
  The branches of the loop body, in the order of the source. \<open>ends_with\<close> is the test
  \<open>len > 4 && strcmp(&entry.name[len - 4], suffix) == 0\<close>; \<open>strncmp(name, p, n) == 0\<close>
  for a literal \<open>p\<close> of length \<open>n\<close> is \<open>take n name = p\<close>.
\<close>

datatype route = AlreadyHandled | ConvertPcx bool | ConvertWal | TgaTodo | CopyFile

definition ends_with :: "string \<Rightarrow> string \<Rightarrow> bool" where
  "ends_with nm suffix = (length nm > 4 \<and> drop (length nm - 4) nm = suffix)"

definition route_of :: "bool \<Rightarrow> string \<Rightarrow> route" where
  "route_of convert nm =
     (if convert then
        (if nm = ''pics/colormap.pcx'' then AlreadyHandled
         else if ends_with nm ''.pcx''
         then ConvertPcx (take 6 nm = ''models'' \<or> take 7 nm = ''players'')
         else if ends_with nm ''.wal'' then ConvertWal
         else if ends_with nm ''.tga'' then TgaTodo
         else CopyFile)
      else CopyFile)"

text \<open>
  Whether a branch writes a file for the entry: the two converters through \<open>writePng\<close>,
  \<open>copyFile\<close> through \<open>fwrite\<close>; the colormap branch is empty and the \<open>.tga\<close> branch only
  prints the name.
\<close>

fun writes_output :: "route \<Rightarrow> bool" where
  "writes_output AlreadyHandled = False"
| "writes_output (ConvertPcx isSkin) = True"
| "writes_output ConvertWal = True"
| "writes_output TgaTodo = False"
| "writes_output CopyFile = True"

text \<open>
  The loop \<open>for (const fileEntry& entry : entries)\<close>. \<open>run r e\<close> is the result of the
  function the branch \<open>r\<close> calls on \<open>e\<close> (\<open>convertPcx\<close>, \<open>convertWal\<close> or \<open>copyFile\<close>). The
  value is the exit code and the entries for which a file was written.
\<close>

fun main_loop ::
  "bool \<Rightarrow> (route \<Rightarrow> fileEntry \<Rightarrow> bool) \<Rightarrow> fileEntry list \<Rightarrow> fileEntry list \<Rightarrow>
   int \<times> fileEntry list" where
  "main_loop convert run [] written = (0, written)"
| "main_loop convert run (entry # rest) written =
     (let r = route_of convert (fe_name entry) in
      if writes_output r
      then (if run r entry then main_loop convert run rest (written @ [entry])
            else (1, written))
      else main_loop convert run rest written)"

section \<open>Example inputs and notions of the proofs\<close>



definition example_palette :: "byte list" where
  "example_palette = replicate 768 7"

definition black_at_1_palette :: "byte list" where
  "black_at_1_palette = replicate 3 10 @ replicate 765 0"

definition black_at_1_table :: "32 word list" where
  "black_at_1_table = loadPalette_table black_at_1_palette (replicate 256 0)"

definition no_garbage :: "nat \<Rightarrow> floodfill_t" where
  "no_garbage = (\<lambda>i. (0, 0))"

definition zero_heap :: "nat \<Rightarrow> byte" where
  "zero_heap = (\<lambda>i. 0)"

definition nine_heap :: "nat \<Rightarrow> byte" where
  "nine_heap = (\<lambda>i. 9)"

definition good_header :: pcx_t where
  "good_header = \<lparr> manufacturer = 0x0a, version = 5, encoding = 1, bits_per_pixel = 8,
                    xmin = 0, ymin = 0, xmax = 1, ymax = 1 \<rparr>"

definition small_pcx_file :: "byte list" where
  "small_pcx_file = replicate 128 0 @ [0xC2, 5, 7, 8]"

definition small_pcx_entry :: fileEntry where
  "small_pcx_entry = \<lparr> fe_name = ''pics/a.pcx'', fe_file = 1, fe_offset = 0, fe_length = 132 \<rparr>"

definition tall_header :: pcx_t where
  "tall_header = \<lparr> manufacturer = 0x0a, version = 5, encoding = 1, bits_per_pixel = 8,
                    xmin = 0, ymin = 0, xmax = 0, ymax = 4095 \<rparr>"

definition tall_pcx_file :: "byte list" where
  "tall_pcx_file = replicate 128 0 @ replicate 4096 0"

definition tall_pcx_entry :: fileEntry where
  "tall_pcx_entry = \<lparr> fe_name = ''pics/tall.pcx'', fe_file = 1, fe_offset = 0, fe_length = 4224 \<rparr>"

definition quake_files_h :: files_h where
  "quake_files_h = \<lparr> IDPAKHEADER = 0x4B434150, MAX_FILES_IN_PACK = 4096, sizeof_name = 56 \<rparr>"

text \<open>
  A container of 76 bytes: the header \<open>PACK\<close>, directory offset 12, directory length 64,
  and one record with the name \<open>pics/a.pcx\<close>, the offset 1000 and the length 500. Its
  first 12 bytes alone are a container that ends behind the header.
\<close>

definition short_pak_bytes :: "byte list" where
  "short_pak_bytes =
     [0x50, 0x41, 0x43, 0x4B, 12, 0, 0, 0, 64, 0, 0, 0] @
     [0x70, 0x69, 0x63, 0x73, 0x2F, 0x61, 0x2E, 0x70, 0x63, 0x78] @ replicate 46 0 @
     [0xE8, 0x03, 0, 0, 0xF4, 0x01, 0, 0]"

definition short_pak :: pak_source where
  "short_pak = \<lparr> ps_handle = 2, ps_bytes = short_pak_bytes,
                  ps_header0 = replicate 12 0, ps_info0 = replicate 262400 0 \<rparr>"

definition cut_pak :: pak_source where
  "cut_pak = \<lparr> ps_handle = 2, ps_bytes = take 12 short_pak_bytes,
                ps_header0 = replicate 12 0,
                ps_info0 = [0x78, 0] @ replicate 54 0 @ [7, 0, 0, 0, 9, 0, 0, 0]
                           @ replicate 262336 0 \<rparr>"

definition wal_entry :: fileEntry where
  "wal_entry = \<lparr> fe_name = ''textures/e1u1/wall.wal'', fe_file = 3, fe_offset = 0, fe_length = 5000 \<rparr>"

definition tga_entry :: fileEntry where
  "tga_entry = \<lparr> fe_name = ''env/sky1rt.tga'', fe_file = 4, fe_offset = 0, fe_length = 7000 \<rparr>"

definition all_succeed :: "route \<Rightarrow> fileEntry \<Rightarrow> bool" where
  "all_succeed = (\<lambda>r e. True)"







definition large_wal_header :: miptex_t where
  "large_wal_header = \<lparr> mt_width = 32768, mt_height = 16384, mt_offsets = [100, 0, 0, 0] \<rparr>"

definition large_wal_file :: filesystem where
  "large_wal_file = (\<lambda>h. replicate 536871012 0)"

definition large_wal_entry :: fileEntry where
  "large_wal_entry = \<lparr> fe_name = ''textures/large.wal'', fe_file = 3, fe_offset = 0,
                        fe_length = 536871012 \<rparr>"

text \<open>
  Notions for the flood fill. A coordinate pair lies in the image (\<open>incoord\<close>); its pixel
  has the index \<open>pix_index\<close> in the buffer. \<open>visit\<close> is what \<open>FLOODFILL_STEP\<close> does to the
  state when the neighbour it looks at is the pixel \<open>n\<close> of the image, and \<open>ff_body_pure\<close>
  is the loop body composed of these visits; the lemmas \<open>FLOODFILL_STEP_visit\<close> and
  \<open>ff_body_pure\<close> show that the body of the source computes exactly this whenever the
  coordinates it takes from the queue lie in the image.
\<close>

definition incoord :: "int \<Rightarrow> int \<Rightarrow> floodfill_t \<Rightarrow> bool" where
  "incoord w h p \<longleftrightarrow> 0 \<le> fst p \<and> fst p < w \<and> 0 \<le> snd p \<and> snd p < h"

definition pix_index :: "int \<Rightarrow> floodfill_t \<Rightarrow> nat" where
  "pix_index w p = nat (fst p + w * snd p)"

definition visit :: "byte \<Rightarrow> int \<Rightarrow> floodfill_t \<Rightarrow> ff_state \<Rightarrow> ff_state" where
  "visit fillcolor w n s =
     (if skin s ! pix_index w n = fillcolor
      then s\<lparr> skin := (skin s)[pix_index w n := 255],
              fifo := (fifo s)(inpt s := n),
              inpt := (inpt s + 1) mod 4096,
              enq := enq s + 1,
              peak := max (peak s) (enq s + 1 - deq s) \<rparr>
      else if skin s ! pix_index w n \<noteq> 255
      then s\<lparr> fdc := uint (skin s ! pix_index w n) \<rparr>
      else s)"

definition ff_body_pure :: "byte \<Rightarrow> int \<Rightarrow> int \<Rightarrow> int \<Rightarrow> ff_state \<Rightarrow> ff_state" where
  "ff_body_pure fillcolor filledcolor w h s =
     (let p = fifo s (outpt s); x = fst p; y = snd p;
          s0 = s\<lparr> fdc := filledcolor, outpt := (outpt s + 1) mod 4096, deq := deq s + 1 \<rparr>;
          s1 = (if x > 0 then visit fillcolor w (x - 1, y) s0 else s0);
          s2 = (if x < w - 1 then visit fillcolor w (x + 1, y) s1 else s1);
          s3 = (if y > 0 then visit fillcolor w (x, y - 1) s2 else s2);
          s4 = (if y < h - 1 then visit fillcolor w (x, y + 1) s3 else s3)
      in s4\<lparr> skin := (skin s4)[pix_index w p := word_of_int (fdc s4)] \<rparr>)"

text \<open>
  The conditions under which \<open>convertPcx\<close> calls \<open>FloodFillSkin\<close> and the loop is entered
  (\<open>ff_wf\<close>): a buffer of \<open>w * h\<close> pixels with both dimensions between 1 and 4096, a
  filled colour in the range of a byte that differs from the fill colour, a fill colour
  other than 255. \<open>ff_inv\<close>
  is what holds of the state at every test of the loop, for the buffer \<open>sk0\<close> that
  \<open>FloodFillSkin\<close> was given; \<open>ff_measure\<close> decreases with every pass through the body.
\<close>

definition ff_wf :: "byte \<Rightarrow> int \<Rightarrow> int \<Rightarrow> int \<Rightarrow> byte list \<Rightarrow> bool" where
  "ff_wf f c w h sk0 \<longleftrightarrow>
     0 < w \<and> w \<le> 4096 \<and> 0 < h \<and> h \<le> 4096 \<and> length sk0 = nat (w * h) \<and>
     0 \<le> c \<and> c \<le> 255 \<and> c \<noteq> uint f \<and> f \<noteq> 255"

definition ff_valid :: "byte \<Rightarrow> int \<Rightarrow> int \<Rightarrow> byte list \<Rightarrow> floodfill_t \<Rightarrow> bool" where
  "ff_valid f w h sk0 p \<longleftrightarrow> incoord w h p \<and> sk0 ! pix_index w p = f"

definition fdc_ok :: "byte \<Rightarrow> int \<Rightarrow> bool" where
  "fdc_ok f v \<longleftrightarrow> 0 \<le> v \<and> v \<le> 255 \<and> v \<noteq> uint f"

definition ff_inv :: "byte \<Rightarrow> int \<Rightarrow> int \<Rightarrow> byte list \<Rightarrow> ff_state \<Rightarrow> bool" where
  "ff_inv f w h sk0 s \<longleftrightarrow>
     length (skin s) = length sk0 \<and>
     (\<forall>i < length sk0. sk0 ! i \<noteq> f \<longrightarrow> skin s ! i = sk0 ! i) \<and>
     (\<forall>j. j < enq s \<and> j < 4096 \<longrightarrow> ff_valid f w h sk0 (fifo s j)) \<and>
     inpt s = enq s mod 4096 \<and> outpt s = deq s mod 4096 \<and>
     (enq s < 4096 \<longrightarrow> deq s \<le> enq s) \<and>
     fdc_ok f (fdc s)"

definition count_fill :: "byte \<Rightarrow> byte list \<Rightarrow> nat" where
  "count_fill f sk = length (filter (\<lambda>b. b = f) sk)"

definition ff_measure :: "byte \<Rightarrow> ff_state \<Rightarrow> nat" where
  "ff_measure f s = count_fill f (skin s) * 4096 + (inpt s + 4096 - outpt s) mod 4096"

text \<open>The state in which \<open>FloodFillSkin\<close> enters its loop.\<close>

definition ff_init :: "(nat \<Rightarrow> floodfill_t) \<Rightarrow> byte list \<Rightarrow> int \<Rightarrow> ff_state" where
  "ff_init garbage sk0 c =
     \<lparr> skin = sk0, fifo = garbage(0 := (0, 0)), inpt = 1, outpt = 0,
       fdc = c, enq = 1, deq = 0, peak = 1 \<rparr>"

text \<open>
  Four-connectivity, and the pixels that can be reached from pixel (0,0) through pixels
  that have the fill colour in the buffer \<open>sk0\<close> given to \<open>FloodFillSkin\<close>.
\<close>

definition adjacent :: "floodfill_t \<Rightarrow> floodfill_t \<Rightarrow> bool" where
  "adjacent p q \<longleftrightarrow> \<bar>fst p - fst q\<bar> + \<bar>snd p - snd q\<bar> = 1"

inductive fill_reach :: "byte \<Rightarrow> int \<Rightarrow> int \<Rightarrow> byte list \<Rightarrow> floodfill_t \<Rightarrow> bool"
  for f w h sk0 where
  start: "ff_valid f w h sk0 (0, 0) \<Longrightarrow> fill_reach f w h sk0 (0, 0)"
| step: "fill_reach f w h sk0 p \<Longrightarrow> adjacent p q \<Longrightarrow> ff_valid f w h sk0 q \<Longrightarrow>
         fill_reach f w h sk0 q"

text \<open>
  The coordinates that are stored in the queue and not yet taken from it, and what holds
  of them as long as the queue has never held more than 4095 coordinates: \<open>cur\<close> is the
  pixel whose neighbours the body is looking at, if any. A pixel of value 255 is in the
  queue; a pixel of the flooded region that has been dealt with has no neighbour of the
  fill colour left.
\<close>

definition pend :: "ff_state \<Rightarrow> floodfill_t set" where
  "pend s = {fifo s (j mod 4096) | j. deq s \<le> j \<and> j < enq s}"

definition bfs_inv ::
  "byte \<Rightarrow> int \<Rightarrow> int \<Rightarrow> byte list \<Rightarrow> floodfill_t option \<Rightarrow> ff_state \<Rightarrow> bool" where
  "bfs_inv f w h sk0 cur s \<longleftrightarrow>
     deq s \<le> enq s \<and> enq s \<le> deq s + peak s \<and> peak s \<le> 4095 \<and> fdc s \<noteq> 255 \<and>
     (\<forall>p. ff_valid f w h sk0 p \<and> skin s ! pix_index w p = 255 \<longrightarrow> p \<in> pend s \<or> Some p = cur) \<and>
     (\<forall>p q. ff_valid f w h sk0 p \<and> skin s ! pix_index w p \<noteq> f \<and> p \<notin> pend s \<and>
            Some p \<noteq> cur \<and> adjacent p q \<and> ff_valid f w h sk0 q
              \<longrightarrow> skin s ! pix_index w q \<noteq> f) \<and>
     (skin s ! 0 \<noteq> f \<or> (0, 0) \<in> pend s \<or> cur = Some (0, 0))"

text \<open>The buffer \<open>a\<close> after the pixels \<open>px\<close> were stored from position \<open>p\<close> on.\<close>

definition pcx_store :: "byte list \<Rightarrow> nat \<Rightarrow> byte list \<Rightarrow> byte list" where
  "pcx_store a p px = take p a @ px @ drop (p + length px) a"

section \<open>Properties\<close>

subsection \<open>The catalog: the first registration of a name wins\<close>








subsection \<open>The palette table\<close>

lemma split256:
  fixes r k :: nat
  assumes "r < 256"
  shows "(r + 256 * k) mod 256 = r" and "(r + 256 * k) div 256 = k"
  using assms by simp_all

definition chan4 :: "nat \<Rightarrow> nat \<Rightarrow> nat \<Rightarrow> nat \<Rightarrow> nat" where
  "chan4 R G B A = R + 256 * (G + 256 * (B + 256 * A))"

lemma chan_arith:
  fixes R G B A :: nat
  assumes "R < 256" "G < 256" "B < 256" "A < 256"
  shows "chan4 R G B A mod 256 = R"
    and "chan4 R G B A div 2 ^ 8 mod 256 = G"
    and "chan4 R G B A div 2 ^ 16 mod 256 = B"
    and "chan4 R G B A div 2 ^ 24 mod 256 = A"
    and "chan4 R G B A mod 16777216 = chan4 R G B 0"
proof -
  define X where "X = chan4 R G B A"
  define K2 where "K2 = B + 256 * A"
  define K1 where "K1 = G + 256 * K2"
  have e: "X = R + 256 * K1" by (simp add: X_def K1_def K2_def chan4_def)
  have d1: "X div 256 = K1" and m1: "X mod 256 = R"
    unfolding e using split256[OF assms(1), of K1] by blast+
  have d2: "K1 div 256 = K2" and m2: "K1 mod 256 = G"
    unfolding K1_def using split256[OF assms(2), of K2] by blast+
  have d3: "K2 div 256 = A" and m3: "K2 mod 256 = B"
    unfolding K2_def using split256[OF assms(3), of A] by blast+
  have "X div 65536 = X div 256 div 256" by (simp add: div_mult2_eq[symmetric])
  then have d65536: "X div 65536 = K2" by (simp only: d1 d2)
  have "X div 16777216 = X div 65536 div 256" by (simp add: div_mult2_eq[symmetric])
  then have d16: "X div 16777216 = A" by (simp only: d65536 d3)
  show "chan4 R G B A mod 256 = R" using m1 by (simp only: X_def)
  show "chan4 R G B A div 2 ^ 8 mod 256 = G" using m2 d1 by (simp add: X_def)
  show "chan4 R G B A div 2 ^ 16 mod 256 = B" using m3 d65536 by (simp add: X_def)
  show "chan4 R G B A div 2 ^ 24 mod 256 = A" using d16 assms(4) by (simp add: X_def)
  have lt: "chan4 R G B 0 < 16777216" using assms by (simp add: chan4_def)
  have "X = chan4 R G B 0 + 16777216 * A" by (simp add: X_def chan4_def)
  then have "X mod 16777216 = chan4 R G B 0" using lt by simp
  then show "chan4 R G B A mod 16777216 = chan4 R G B 0" by (simp only: X_def)
qed

lemma unat_chan:
  fixes v :: "32 word"
  shows "unat (ucast (drop_bit n v) :: byte) = unat v div 2 ^ n mod 256"
    and "unat (ucast v :: byte) = unat v mod 256"
proof -
  have "unat (ucast (drop_bit n v) :: byte) = take_bit 8 (drop_bit n (unat v))"
    by (simp only: unsigned_ucast_eq unat_drop_bit_eq) simp
  then show "unat (ucast (drop_bit n v) :: byte) = unat v div 2 ^ n mod 256"
    by (simp add: take_bit_eq_mod drop_bit_eq_div)
  show "unat (ucast v :: byte) = unat v mod 256"
    by (simp add: unsigned_ucast_eq take_bit_eq_mod)
qed

lemma byte_lt: "unat (r::byte) < 256"
  using unsigned_less[of r, where ?'a = nat] by simp

lemma unat_ucast_byte: "unat (ucast (r::byte) :: 32 word) = unat r"
  using byte_lt[of r] by (simp add: unsigned_ucast_eq take_bit_nat_eq_self)

lemma unat_palette_word:
  "unat (palette_word p i) = chan4 (unat (p ! (i * 3))) (unat (p ! (i * 3 + 1))) (unat (p ! (i * 3 + 2))) 255"
proof -
  define r where "r = p ! (i * 3)"
  define g where "g = p ! (i * 3 + 1)"
  define b where "b = p ! (i * 3 + 2)"
  note r = byte_lt[of r] and g = byte_lt[of g] and b = byte_lt[of b]
  have pg: "unat (push_bit 8 (ucast g :: 32 word)) = 256 * unat g"
    using g by (simp add: push_bit_eq_mult unat_word_ariths unat_ucast_byte)
  have pb: "unat (push_bit 16 (ucast b :: 32 word)) = 65536 * unat b"
    using b by (simp add: push_bit_eq_mult unat_word_ariths unat_ucast_byte)
  have "unat (0xFF000000 + ucast r + push_bit 8 (ucast g) + push_bit 16 (ucast b) :: 32 word)
         = 4278190080 + unat r + 256 * unat g + 65536 * unat b"
    using r g b by (simp add: unat_word_ariths unat_ucast_byte pg pb)
  then show ?thesis
    by (simp add: palette_word_def Let_def chan4_def r_def g_def b_def)
qed

lemma unat_and_ffffff: "unat ((v :: 32 word) AND 0xffffff) = unat v mod 16777216"
proof -
  have m: "(0xffffff :: 32 word) = mask 24" by (simp add: mask_eq_exp_minus_1)
  have "unat (v AND mask 24) = unat (take_bit 24 v)" by (simp only: take_bit_eq_mask)
  also have "\<dots> = take_bit 24 (unat v)" by (rule unsigned_take_bit_eq)
  also have "\<dots> = unat v mod 16777216" by (simp add: take_bit_eq_mod)
  finally show ?thesis by (simp only: m)
qed

lemma byte_eqI: "unat (x::byte) = unat y \<Longrightarrow> x = y"
  by (simp only: word_unat_eq_iff)

lemma palette_word_channels:
  "red (palette_word p i) = p ! (i * 3)"
  "green (palette_word p i) = p ! (i * 3 + 1)"
  "blue (palette_word p i) = p ! (i * 3 + 2)"
  "alpha (palette_word p i) = 255"
proof -
  let ?v = "palette_word p i"
  let ?c = "chan4 (unat (p ! (i * 3))) (unat (p ! (i * 3 + 1))) (unat (p ! (i * 3 + 2))) 255"
  note ar = chan_arith[OF byte_lt byte_lt byte_lt, of 255 "p ! (i * 3)" "p ! (i * 3 + 1)" "p ! (i * 3 + 2)"]
  have "unat (red ?v) = ?c mod 256"
    unfolding red_def by (simp only: unat_chan(2) unat_palette_word)
  then show "red ?v = p ! (i * 3)" using ar(1) by (intro byte_eqI) simp
  have "unat (green ?v) = ?c div 2 ^ 8 mod 256"
    unfolding green_def by (simp only: unat_chan(1) unat_palette_word)
  then show "green ?v = p ! (i * 3 + 1)" using ar(2) by (intro byte_eqI) simp
  have "unat (blue ?v) = ?c div 2 ^ 16 mod 256"
    unfolding blue_def by (simp only: unat_chan(1) unat_palette_word)
  then show "blue ?v = p ! (i * 3 + 2)" using ar(3) by (intro byte_eqI) simp
  have "unat (alpha ?v) = ?c div 2 ^ 24 mod 256"
    unfolding alpha_def by (simp only: unat_chan(1) unat_palette_word)
  then show "alpha ?v = 255" using ar(4) by (intro byte_eqI) simp
qed

lemma palette_word_masked_channels:
  "red (palette_word p i AND 0xffffff) = p ! (i * 3)"
  "green (palette_word p i AND 0xffffff) = p ! (i * 3 + 1)"
  "blue (palette_word p i AND 0xffffff) = p ! (i * 3 + 2)"
  "alpha (palette_word p i AND 0xffffff) = 0"
proof -
  let ?v = "palette_word p i AND 0xffffff"
  let ?c = "chan4 (unat (p ! (i * 3))) (unat (p ! (i * 3 + 1))) (unat (p ! (i * 3 + 2))) 0"
  note ar = chan_arith[OF byte_lt byte_lt byte_lt, of 0 "p ! (i * 3)" "p ! (i * 3 + 1)" "p ! (i * 3 + 2)"]
  note ar' = chan_arith(5)[OF byte_lt byte_lt byte_lt, of 255 "p ! (i * 3)" "p ! (i * 3 + 1)" "p ! (i * 3 + 2)"]
  have u: "unat ?v = ?c"
    using ar' by (simp only: unat_and_ffffff unat_palette_word)
  have "unat (red ?v) = ?c mod 256"
    unfolding red_def by (simp only: unat_chan(2) u)
  then show "red ?v = p ! (i * 3)" using ar(1) by (intro byte_eqI) simp
  have "unat (green ?v) = ?c div 2 ^ 8 mod 256"
    unfolding green_def by (simp only: unat_chan(1) u)
  then show "green ?v = p ! (i * 3 + 1)" using ar(2) by (intro byte_eqI) simp
  have "unat (blue ?v) = ?c div 2 ^ 16 mod 256"
    unfolding blue_def by (simp only: unat_chan(1) u)
  then show "blue ?v = p ! (i * 3 + 2)" using ar(3) by (intro byte_eqI) simp
  have "unat (alpha ?v) = ?c div 2 ^ 24 mod 256"
    unfolding alpha_def by (simp only: unat_chan(1) u)
  then show "alpha ?v = 0" using ar(4) by (intro byte_eqI) simp
qed

lemma loadPalette_loop_length [simp]:
  "length (loadPalette_loop p i t) = length t"
  by (induction p i t rule: loadPalette_loop.induct)
     (subst loadPalette_loop.simps, simp)

lemma loadPalette_loop_nth:
  "k < length t \<Longrightarrow>
   loadPalette_loop p i t ! k = (if i \<le> k \<and> k < 256 then palette_word p k else t ! k)"
proof (induction p i t rule: loadPalette_loop.induct)
  case (1 palette i t)
  show ?case
  proof (cases "i < 256")
    case False
    then show ?thesis by (subst loadPalette_loop.simps) auto
  next
    case True
    have "loadPalette_loop palette i t ! k = loadPalette_loop palette (i + 1) (t[i := palette_word palette i]) ! k"
      using True by (subst loadPalette_loop.simps) simp
    also have "\<dots> = (if i + 1 \<le> k \<and> k < 256 then palette_word palette k else (t[i := palette_word palette i]) ! k)"
      using "1.IH"[OF True] "1.prems" by simp
    also have "\<dots> = (if i \<le> k \<and> k < 256 then palette_word palette k else t ! k)"
      using "1.prems" True by (cases "k = i") auto
    finally show ?thesis .
  qed
qed

lemma loadPalette_table_length [simp]:
  "length (loadPalette_table p t) = length t"
  by (simp add: loadPalette_table_def Let_def)

lemma loadPalette_table_nth:
  assumes "length t = 256" and "k < 256"
  shows "loadPalette_table p t ! k =
           (if k = 255 then palette_word p 255 AND 0xffffff else palette_word p k)"
  using assms by (simp add: loadPalette_table_def Let_def loadPalette_loop_nth nth_list_update)

lemma loadPalette_table_indep:
  assumes "length t = 256" and "length t' = 256"
  shows "loadPalette_table p t = loadPalette_table p t'"
  using assms by (intro nth_equalityI) (simp_all add: loadPalette_table_nth)

text \<open>
  C9. The table built from a 768 byte palette block does not depend on what the table
  held before, so building it again from the same bytes gives the same 256 entries;
  entries 0 to 254 have alpha 255 and the red, green and blue of their source triple;
  entry 255 keeps the red, green and blue of its triple and has alpha 0.
\<close>

theorem loadPalette_table_spec:
  assumes "length palette = 768" and "length t0 = 256"
  shows "length (loadPalette_table palette t0) = 256
       \<and> (\<forall>i<255. alpha (loadPalette_table palette t0 ! i) = 255
                 \<and> red (loadPalette_table palette t0 ! i) = palette ! (i * 3 + 0)
                 \<and> green (loadPalette_table palette t0 ! i) = palette ! (i * 3 + 1)
                 \<and> blue (loadPalette_table palette t0 ! i) = palette ! (i * 3 + 2))
       \<and> alpha (loadPalette_table palette t0 ! 255) = 0
       \<and> red (loadPalette_table palette t0 ! 255) = palette ! 765
       \<and> green (loadPalette_table palette t0 ! 255) = palette ! 766
       \<and> blue (loadPalette_table palette t0 ! 255) = palette ! 767
       \<and> (\<forall>t1. length t1 = 256 \<longrightarrow> loadPalette_table palette t1 = loadPalette_table palette t0)
       \<and> loadPalette_table palette (loadPalette_table palette t0) = loadPalette_table palette t0"
proof -
  let ?T = "loadPalette_table palette t0"
  have len: "length ?T = 256" using assms(2) by simp
  have lo: "alpha (?T ! i) = 255 \<and> red (?T ! i) = palette ! (i * 3 + 0)
      \<and> green (?T ! i) = palette ! (i * 3 + 1) \<and> blue (?T ! i) = palette ! (i * 3 + 2)"
    if "i < 255" for i
    using that assms(2) by (simp add: loadPalette_table_nth palette_word_channels)
  have hi: "alpha (?T ! 255) = 0" "red (?T ! 255) = palette ! 765"
    "green (?T ! 255) = palette ! 766" "blue (?T ! 255) = palette ! 767"
    using assms(2) palette_word_masked_channels[of palette 255]
    by (simp_all add: loadPalette_table_nth)
  have ind: "loadPalette_table palette t1 = ?T" if "length t1 = 256" for t1
    using that assms(2) by (rule loadPalette_table_indep)
  have idem: "loadPalette_table palette ?T = ?T"
    using len by (rule ind)
  show ?thesis using len lo hi ind idem by blast
qed



theorem loadPalette_table_spec_witness:
  "length example_palette = 768
   \<and> length (replicate 256 (0 :: 32 word)) = 256
   \<and> length (loadPalette_table example_palette (replicate 256 0)) = 256
   \<and> alpha (loadPalette_table example_palette (replicate 256 0) ! 3) = 255
   \<and> red (loadPalette_table example_palette (replicate 256 0) ! 3) = 7
   \<and> alpha (loadPalette_table example_palette (replicate 256 0) ! 255) = 0
   \<and> blue (loadPalette_table example_palette (replicate 256 0) ! 255) = 7
   \<and> loadPalette_table example_palette (replicate 256 1)
       = loadPalette_table example_palette (replicate 256 0)"
proof -
  have h: "length example_palette = 768" "length (replicate 256 (0 :: 32 word)) = 256"
    by (simp_all add: example_palette_def)
  have l1: "length (replicate 256 (1 :: 32 word)) = 256" by simp
  have e: "example_palette ! (3 * 3 + 0) = 7" "example_palette ! 767 = 7"
    by (simp_all add: example_palette_def)
  let ?T = "loadPalette_table example_palette (replicate 256 0)"
  note s = loadPalette_table_spec[OF h]
  have lt: "(3::nat) < 255" by simp
  from s have len: "length ?T = 256" by (rule conjunct1)
  from s lt have lo: "alpha (?T ! 3) = 255 \<and> red (?T ! 3) = example_palette ! (3 * 3 + 0)"
    by blast
  from s have hi: "alpha (?T ! 255) = 0 \<and> blue (?T ! 255) = example_palette ! 767"
    by blast
  from s l1 have ind: "loadPalette_table example_palette (replicate 256 1) = ?T"
    by blast
  from h len lo hi ind e show ?thesis by simp
qed

subsection \<open>The filled colour of \<open>FloodFillSkin\<close>\<close>

lemma find_filledcolor_none:
  "(\<And>k. i \<le> k \<Longrightarrow> k < 256 \<Longrightarrow> tbl ! k \<noteq> 255) \<Longrightarrow> find_filledcolor tbl i = 0"
proof (induction tbl i rule: find_filledcolor.induct)
  case (1 tbl i)
  show ?case
  proof (cases "i < 256")
    case False
    then show ?thesis by (simp add: find_filledcolor.simps[of tbl i])
  next
    case True
    with "1.prems"[of i] have ne: "tbl ! i \<noteq> 255" by simp
    have "find_filledcolor tbl (i + 1) = 0"
      using "1.IH" True ne "1.prems" by simp
    with True ne show ?thesis by (simp add: find_filledcolor.simps[of tbl i])
  qed
qed

lemma find_filledcolor_first:
  "i \<le> k \<Longrightarrow> k < 256 \<Longrightarrow> tbl ! k = 255 \<Longrightarrow>
   (\<And>j. i \<le> j \<Longrightarrow> j < k \<Longrightarrow> tbl ! j \<noteq> 255) \<Longrightarrow> find_filledcolor tbl i = int k"
proof (induction tbl i rule: find_filledcolor.induct)
  case (1 tbl i)
  from "1.prems" have lt: "i < 256" by simp
  show ?case
  proof (cases "tbl ! i = 255")
    case True
    with "1.prems"(4)[of i] "1.prems"(1) have "i = k" by (cases "i < k") auto
    with True lt show ?thesis by (subst find_filledcolor.simps) simp
  next
    case False
    with "1.prems" have "i \<noteq> k" by auto
    with "1.prems" have "i + 1 \<le> k" by simp
    have "find_filledcolor tbl (i + 1) = int k"
      using "1.IH"[OF lt _ \<open>i + 1 \<le> k\<close> "1.prems"(2,3)] False "1.prems"(4) by simp
    with False lt show ?thesis by (simp add: find_filledcolor.simps[of tbl i])
  qed
qed

lemma alpha_255: "alpha (255 :: 32 word) = 0"
  by (simp add: alpha_def drop_bit_eq_div)

lemma loadPalette_table_opaque_ne:
  assumes "length t = 256" and "k < 255"
  shows "loadPalette_table p t ! k \<noteq> 255"
proof
  assume "loadPalette_table p t ! k = 255"
  then have "alpha (loadPalette_table p t ! k) = 0" by (simp add: alpha_255)
  moreover have "alpha (loadPalette_table p t ! k) = 255"
    using assms by (simp add: loadPalette_table_nth palette_word_channels)
  ultimately show False by simp
qed

text \<open>
  On a table that \<open>loadPalette\<close> built, the search can only stop at index 255, and only
  when the last palette triple is (255, 0, 0); an opaque black entry (alpha 255, red,
  green and blue 0) is never what it finds.
\<close>

lemma find_filledcolor_loadPalette:
  assumes "length t = 256"
  shows "find_filledcolor (loadPalette_table p t) 0 =
           (if loadPalette_table p t ! 255 = 255 then 255 else 0)"
proof (cases "loadPalette_table p t ! 255 = 255")
  case True
  have "find_filledcolor (loadPalette_table p t) 0 = int 255"
    using True loadPalette_table_opaque_ne[OF assms]
    by (intro find_filledcolor_first) simp_all
  with True show ?thesis by simp
next
  case False
  have "find_filledcolor (loadPalette_table p t) 0 = 0"
  proof (rule find_filledcolor_none)
    fix k :: nat assume "k < 256"
    show "loadPalette_table p t ! k \<noteq> 255"
    proof (cases "k = 255")
      case True with False show ?thesis by simp
    next
      case False with \<open>k < 256\<close> have "k < 255" by simp
      then show ?thesis by (rule loadPalette_table_opaque_ne[OF assms])
    qed
  qed
  with False show ?thesis by simp
qed

text \<open>The part of the test that the source gets right: the two cases in which it returns at once.\<close>

lemma FloodFillSkin_skip:
  assumes "uint fillcolor = find_filledcolor tbl 0 \<or> fillcolor = 255"
  shows "FloodFillSkin tbl garbage (fillcolor # rest) w h = Some (fillcolor # rest)"
  using assms by (auto simp: FloodFillSkin_def FloodFillSkin_run_def Let_def)


lemma black_at_1_table_nth:
  "black_at_1_table ! 0 = 0xFF0A0A0A"
  "black_at_1_table ! 1 = 0xFF000000"
  "black_at_1_table ! 255 = 0"
  by (simp_all add: black_at_1_table_def loadPalette_table_nth palette_word_def
      black_at_1_palette_def nth_append)

lemma black_at_1_filledcolor: "find_filledcolor black_at_1_table 0 = 0"
  unfolding black_at_1_table_def
  using black_at_1_table_nth(3)
  by (simp add: find_filledcolor_loadPalette black_at_1_table_def)

lemma mask_simps [simp]: "(1::nat) AND FLOODFILL_FIFO_MASK = 1" "(2::nat) AND FLOODFILL_FIFO_MASK = 2"
  by (simp_all add: FLOODFILL_FIFO_MASK_def FLOODFILL_FIFO_SIZE_def)

text \<open>
  C3. The palette below has the non-black triple (10, 10, 10) at index 0 and black at
  index 1, so the table holds opaque black first at index 1. The search of
  \<open>FloodFillSkin\<close> compares with \<open>255 << 0\<close>, finds no entry and keeps 0 as the filled
  colour. On the 2 by 1 image with pixels 1 and 5 the fill colour (pixel (0,0)) is 1,
  the index of opaque black, and the image is changed nevertheless: pixel (0,0) becomes 5.
\<close>

theorem FloodFillSkin_filledcolor_not_opaque_black:
  "alpha (black_at_1_table ! 0) = 255 \<and> black_at_1_table ! 0 \<noteq> 0xFF000000
   \<and> black_at_1_table ! 1 = 0xFF000000
   \<and> find_filledcolor black_at_1_table 0 = 0
   \<and> FloodFillSkin black_at_1_table no_garbage [1, 5] 2 1 = Some [5, 5]"
proof -
  have run: "FloodFillSkin black_at_1_table no_garbage [1, 5] 2 1 = Some [5, 5]"
    by (simp add: FloodFillSkin_def FloodFillSkin_run_def black_at_1_filledcolor Let_def
        ff_loop.simps ff_body_def FLOODFILL_STEP_def no_garbage_def to_short_def
        FLOODFILL_FIFO_MASK_def FLOODFILL_FIFO_SIZE_def)
  have "alpha (black_at_1_table ! 0) = 255"
    by (simp add: black_at_1_table_def loadPalette_table_nth palette_word_channels)
  with run black_at_1_table_nth black_at_1_filledcolor show ?thesis by simp
qed

subsection \<open>The run-length decoder\<close>

lemma pcx_run_Inr:
  "pcx_run out1 pix x v n = Inr (out2, x2) \<Longrightarrow>
     x2 = x + int n \<and> length out2 = length out1 \<and>
     (n > 0 \<longrightarrow> 0 \<le> pix + x \<and> pix + x + int n \<le> int (length out1)) \<and>
     (\<forall>i < length out1. out2 ! i =
        (if pix + x \<le> int i \<and> int i < pix + x + int n then v else out1 ! i))"
proof (induction n arbitrary: out1 x)
  case 0
  then show ?case by auto
next
  case (Suc n)
  from Suc.prems have inr: "0 \<le> pix + x" "pix + x < int (length out1)"
    and rec: "pcx_run (out1[nat (pix + x) := v]) pix (x + 1) v n = Inr (out2, x2)"
    by (simp_all split: if_splits)
  from Suc.IH[OF rec]
  have ih: "x2 = x + 1 + int n" "length out2 = length out1"
    "n > 0 \<longrightarrow> 0 \<le> pix + (x + 1) \<and> pix + (x + 1) + int n \<le> int (length out1)"
    "\<forall>i < length out1. out2 ! i =
        (if pix + (x + 1) \<le> int i \<and> int i < pix + (x + 1) + int n then v
         else (out1[nat (pix + x) := v]) ! i)"
    by simp_all
  have "out2 ! i = (if pix + x \<le> int i \<and> int i < pix + x + int (Suc n) then v else out1 ! i)"
    if "i < length out1" for i
  proof (cases "int i = pix + x")
    case True
    then have "nat (pix + x) = i" by simp
    with ih(4) that True show ?thesis by simp
  next
    case False
    then have "nat (pix + x) \<noteq> i" using inr by auto
    with ih(4) that False show ?thesis by auto
  qed
  with ih inr show ?case by auto
qed

lemma pcx_run_error: "pcx_run out1 pix x v n = Inl e \<Longrightarrow> e = UndefinedBehaviour"
  by (induction n arbitrary: out1 x) (auto split: if_splits)

lemma pcx_row_done: "\<not> x \<le> w \<Longrightarrow> pcx_row raw out1 pix x w = Inr (raw, out1)"
  by (subst pcx_row.simps) simp

lemma pcx_row_Nil: "x \<le> w \<Longrightarrow> pcx_row [] out1 pix x w = Inl UndefinedBehaviour"
  by (subst pcx_row.simps) simp

lemma pcx_row_rle_end:
  "x \<le> w \<Longrightarrow> d AND 0xC0 = 0xC0 \<Longrightarrow> pcx_row [d] out1 pix x w = Inl UndefinedBehaviour"
  by (subst pcx_row.simps) simp

lemma pcx_row_rle:
  "x \<le> w \<Longrightarrow> d AND 0xC0 = 0xC0 \<Longrightarrow>
   pcx_row (d # v # raw) out1 pix x w =
     (case pcx_run out1 pix x v (unat (d AND 0x3F)) of
        Inl e \<Rightarrow> Inl e
      | Inr (out2, x2) \<Rightarrow> pcx_row raw out2 pix x2 w)"
  by (subst pcx_row.simps) simp

lemma pcx_row_lit:
  "x \<le> w \<Longrightarrow> d AND 0xC0 \<noteq> 0xC0 \<Longrightarrow>
   pcx_row (d # raw) out1 pix x w =
     (case pcx_run out1 pix x d 1 of
        Inl e \<Rightarrow> Inl e
      | Inr (out2, x2) \<Rightarrow> pcx_row raw out2 pix x2 w)"
  by (subst pcx_row.simps) simp

lemmas pcx_row_unfold = pcx_row_done pcx_row_Nil pcx_row_rle_end pcx_row_rle pcx_row_lit

lemma pcx_row_length:
  "pcx_row raw a pix x w = Inr (raw2, a2) \<Longrightarrow> length a2 = length a"
proof (induction raw a pix x w rule: pcx_row.induct)
  case (1 raw out1 pix x pcx_width)
  show ?case
  proof (cases "x \<le> pcx_width")
    case False
    with "1.prems" show ?thesis by (simp add: pcx_row_done)
  next
    case True
    from True "1.prems" obtain dataByte raw1 where raw: "raw = dataByte # raw1"
      by (cases raw) (simp_all add: pcx_row_unfold)
    show ?thesis
    proof (cases "dataByte AND 0xC0 = 0xC0")
      case rle: True
      from True rle raw "1.prems" obtain dataByte2 raw2' where raw1: "raw1 = dataByte2 # raw2'"
        by (cases raw1) (simp_all add: pcx_row_unfold)
      from True rle raw raw1 "1.prems" obtain o2 x2 where
        run: "pcx_run out1 pix x dataByte2 (unat (dataByte AND 0x3F)) = Inr (o2, x2)"
        and rest: "pcx_row raw2' o2 pix x2 pcx_width = Inr (raw2, a2)"
        by (auto simp: pcx_row_unfold split: sum.splits)
      from "1.IH"(1)[OF True raw rle raw1 run refl rest] pcx_run_Inr[OF run]
      show ?thesis by simp
    next
      case lit: False
      from True lit raw "1.prems" obtain o2 x2 where
        run: "pcx_run out1 pix x dataByte 1 = Inr (o2, x2)"
        and rest: "pcx_row raw1 o2 pix x2 pcx_width = Inr (raw2, a2)"
        by (auto simp: pcx_row_unfold split: sum.splits)
      from "1.IH"(2)[OF True raw lit run refl rest] pcx_run_Inr[OF run]
      show ?thesis by simp
    qed
  qed
qed

lemma pcx_row_error: "pcx_row raw a pix x w = Inl e \<Longrightarrow> e = UndefinedBehaviour"
proof (induction raw a pix x w rule: pcx_row.induct)
  case (1 raw out1 pix x pcx_width)
  from "1.prems" have True: "x \<le> pcx_width" by (cases "x \<le> pcx_width") (simp_all add: pcx_row_done)
  show ?case
  proof (cases raw)
    case Nil
    with "1.prems" True show ?thesis by (simp add: pcx_row_unfold)
  next
    case raw: (Cons dataByte raw1)
    show ?thesis
    proof (cases "dataByte AND 0xC0 = 0xC0")
      case rle: True
      show ?thesis
      proof (cases raw1)
        case Nil
        with "1.prems" True raw rle show ?thesis by (simp add: pcx_row_unfold)
      next
        case raw1: (Cons dataByte2 raw2')
        show ?thesis
        proof (cases "pcx_run out1 pix x dataByte2 (unat (dataByte AND 0x3F))")
          case (Inl e')
          with "1.prems" True raw rle raw1 pcx_run_error[OF Inl] show ?thesis
            by (simp add: pcx_row_unfold)
        next
          case (Inr p)
          obtain o2 x2 where p: "p = (o2, x2)" by (cases p)
          from "1.prems" True raw rle raw1 Inr p
          have "pcx_row raw2' o2 pix x2 pcx_width = Inl e" by (simp add: pcx_row_unfold)
          from "1.IH"(1)[OF True raw rle raw1 Inr[unfolded p] refl this] show ?thesis .
        qed
      qed
    next
      case lit: False
      show ?thesis
      proof (cases "pcx_run out1 pix x dataByte 1")
        case (Inl e')
        with "1.prems" True raw lit pcx_run_error[OF Inl] show ?thesis
          by (simp add: pcx_row_unfold)
      next
        case (Inr p)
        obtain o2 x2 where p: "p = (o2, x2)" by (cases p)
        from "1.prems" True raw lit Inr p
        have "pcx_row raw1 o2 pix x2 pcx_width = Inl e" by (simp add: pcx_row_unfold)
        from "1.IH"(2)[OF True raw lit Inr[unfolded p] refl this] show ?thesis .
      qed
    qed
  qed
qed

lemma pcx_rows_done: "\<not> y \<le> h \<Longrightarrow> pcx_rows raw a pix y w h = Inr a"
  by (subst pcx_rows.simps) simp

lemma pcx_rows_step:
  "y \<le> h \<Longrightarrow> pcx_rows raw a pix y w h =
     (case pcx_row raw a pix 0 w of
        Inl e \<Rightarrow> Inl e
      | Inr (raw', a2) \<Rightarrow> pcx_rows raw' a2 (pix + (w + 1)) (y + 1) w h)"
  by (subst pcx_rows.simps) simp

lemma pcx_rows_error: "pcx_rows raw a pix y w h = Inl e \<Longrightarrow> e = UndefinedBehaviour"
proof (induction raw a pix y w h rule: pcx_rows.induct)
  case (1 raw out1 pix y pcx_width pcx_height)
  from "1.prems" have True: "y \<le> pcx_height"
    by (cases "y \<le> pcx_height") (simp_all add: pcx_rows_done)
  show ?case
  proof (cases "pcx_row raw out1 pix 0 pcx_width")
    case (Inl e')
    with "1.prems" True pcx_row_error[OF Inl] show ?thesis by (simp add: pcx_rows_step)
  next
    case (Inr p)
    obtain raw' o2 where p: "p = (raw', o2)" by (cases p)
    from "1.prems" True Inr p
    have "pcx_rows raw' o2 (pix + (pcx_width + 1)) (y + 1) pcx_width pcx_height = Inl e"
      by (simp add: pcx_rows_step)
    from "1.IH"[OF True Inr[unfolded p] refl this] show ?thesis .
  qed
qed

lemma pcx_rows_length:
  "pcx_rows raw a pix y w h = Inr a2 \<Longrightarrow> length a2 = length a"
proof (induction raw a pix y w h rule: pcx_rows.induct)
  case (1 raw out1 pix y pcx_width pcx_height)
  show ?case
  proof (cases "y \<le> pcx_height")
    case False
    with "1.prems" show ?thesis by (simp add: pcx_rows_done)
  next
    case True
    from True "1.prems" obtain raw' o2 where
      row: "pcx_row raw out1 pix 0 pcx_width = Inr (raw', o2)"
      and rest: "pcx_rows raw' o2 (pix + (pcx_width + 1)) (y + 1) pcx_width pcx_height = Inr a2"
      by (auto simp: pcx_rows_step split: sum.splits)
    from "1.IH"[OF True row refl rest] pcx_row_length[OF row] show ?thesis by simp
  qed
qed

lemma pcx_run_numeral:
  "pcx_run out1 pix x dataByte (numeral k) =
     (if pix + x < 0 \<or> int (length out1) \<le> pix + x then Inl UndefinedBehaviour
      else pcx_run (out1[nat (pix + x) := dataByte]) pix (x + 1) dataByte (pred_numeral k))"
  by (simp add: numeral_eq_Suc)

lemma pcx_decode_2x2: "pcx_decode hp [0xC2, 5, 7, 8] 1 1 = Inr [5, 5, 7, 8]"
  by (simp add: pcx_decode_def Let_def pcx_rows_step pcx_rows_done pcx_row_unfold upt_rec pcx_run_numeral)

lemma pcx_store_length: "p + length px \<le> length a \<Longrightarrow> length (pcx_store a p px) = length a"
  by (simp add: pcx_store_def)

lemma pcx_store_Nil: "p \<le> length a \<Longrightarrow> pcx_store a p [] = a"
  by (simp add: pcx_store_def)

lemma pcx_store_append:
  assumes "p + length p1 + length p2 \<le> length a"
  shows "pcx_store (pcx_store a p p1) (p + length p1) p2 = pcx_store a p (p1 @ p2)"
proof -
  have l: "length (take p a) = p" using assms by simp
  have t: "take (p + length p1) (take p a @ p1 @ drop (p + length p1) a) = take p a @ p1"
    using l by simp
  have m: "min (length a) p = p" using assms by simp
  have d: "drop (p + length p1 + length p2) (take p a @ p1 @ drop (p + length p1) a)
           = drop (p + length p1 + length p2) a"
    using assms by (simp add: m add.commute add.left_commute)
  show ?thesis unfolding pcx_store_def by (simp only: t d) (simp add: add.assoc)
qed

lemma pcx_store_take:
  assumes "p + length px \<le> length a" and "n \<le> length px"
  shows "take (p + n) (pcx_store a p px) = take p a @ take n px"
proof -
  have l: "length (take p a) = p" using assms by simp
  show ?thesis using l assms by (simp add: pcx_store_def)
qed

lemma pcx_run_store:
  "nat (pix + x) + n \<le> length a \<Longrightarrow> 0 \<le> pix + x \<Longrightarrow>
   pcx_run a pix x v n = Inr (pcx_store a (nat (pix + x)) (replicate n v), x + int n)"
proof (induction n arbitrary: a x)
  case 0
  then show ?case by (simp add: pcx_store_Nil)
next
  case (Suc n)
  let ?p = "nat (pix + x)"
  let ?a = "a[?p := v]"
  from Suc.prems have lt: "?p < length a" by simp
  then have rng: "\<not> (pix + x < 0 \<or> int (length a) \<le> pix + x)" using Suc.prems(2) by simp
  have p1: "nat (pix + (x + 1)) = ?p + 1" using Suc.prems(2) by simp
  have "pcx_run ?a pix (x + 1) v n
        = Inr (pcx_store ?a (nat (pix + (x + 1))) (replicate n v), x + 1 + int n)"
    using Suc.prems by (intro Suc.IH) simp_all
  moreover have "pcx_store ?a (?p + 1) (replicate n v) = pcx_store a ?p (replicate (Suc n) v)"
  proof -
    have "take (?p + 1) ?a = take ?p a @ [v]" using lt by (simp add: take_Suc_conv_app_nth)
    moreover have "drop (?p + 1 + n) ?a = drop (?p + 1 + n) a" by simp
    ultimately show ?thesis by (simp add: pcx_store_def)
  qed
  ultimately show ?case using rng by (simp add: p1)
qed

lemma pcx_run_overrun:
  "int (length a) < pix + x + int n \<Longrightarrow> 0 \<le> pix + x \<Longrightarrow> pix + x \<le> int (length a) \<Longrightarrow>
   pcx_run a pix x v n = Inl UndefinedBehaviour"
proof (induction n arbitrary: a x)
  case 0
  then show ?case by simp
next
  case (Suc n)
  show ?case
  proof (cases "int (length a) \<le> pix + x")
    case True
    then show ?thesis by simp
  next
    case False
    with Suc.prems have "pcx_run (a[nat (pix + x) := v]) pix (x + 1) v n = Inl UndefinedBehaviour"
      by (intro Suc.IH) simp_all
    with False Suc.prems(2) show ?thesis by simp
  qed
qed

lemma pcx_row_pixels_done: "\<not> x \<le> w \<Longrightarrow> pcx_row_pixels raw x w = Some ([], raw)"
  by (subst pcx_row_pixels.simps) simp

lemma pcx_row_pixels_Nil: "x \<le> w \<Longrightarrow> pcx_row_pixels [] x w = None"
  by (subst pcx_row_pixels.simps) simp

lemma pcx_row_pixels_rle_end:
  "x \<le> w \<Longrightarrow> d AND 0xC0 = 0xC0 \<Longrightarrow> pcx_row_pixels [d] x w = None"
  by (subst pcx_row_pixels.simps) simp

lemma pcx_row_pixels_rle:
  "x \<le> w \<Longrightarrow> d AND 0xC0 = 0xC0 \<Longrightarrow>
   pcx_row_pixels (d # v # raw) x w =
     (case pcx_row_pixels raw (x + unat (d AND 0x3F)) w of
        None \<Rightarrow> None
      | Some (px, rest) \<Rightarrow> Some (replicate (unat (d AND 0x3F)) v @ px, rest))"
  by (subst pcx_row_pixels.simps) simp

lemma pcx_row_pixels_lit:
  "x \<le> w \<Longrightarrow> d AND 0xC0 \<noteq> 0xC0 \<Longrightarrow>
   pcx_row_pixels (d # raw) x w =
     (case pcx_row_pixels raw (x + 1) w of
        None \<Rightarrow> None
      | Some (px, rest) \<Rightarrow> Some (d # px, rest))"
  by (subst pcx_row_pixels.simps) simp

lemmas pcx_row_pixels_unfold = pcx_row_pixels_done pcx_row_pixels_Nil pcx_row_pixels_rle_end
  pcx_row_pixels_rle pcx_row_pixels_lit

lemma pcx_run_then_row:
  assumes ih: "\<And>a'. pix + (x + n) \<le> length a' \<Longrightarrow>
      pcx_row raw' a' (int pix) (int (x + n)) (int w) =
        (case pcx_row_pixels raw' (x + n) w of
           None \<Rightarrow> Inl UndefinedBehaviour
         | Some (px, rest) \<Rightarrow>
             if pix + (x + n) + length px \<le> length a'
             then Inr (rest, pcx_store a' (pix + (x + n)) px) else Inl UndefinedBehaviour)"
    and le: "pix + x \<le> length a"
  shows "(case pcx_run a (int pix) (int x) v n of
            Inl e \<Rightarrow> Inl e
          | Inr (a2, x2) \<Rightarrow> pcx_row raw' a2 (int pix) x2 (int w))
         = (case pcx_row_pixels raw' (x + n) w of
              None \<Rightarrow> Inl UndefinedBehaviour
            | Some (px, rest) \<Rightarrow>
                if pix + x + (n + length px) \<le> length a
                then Inr (rest, pcx_store a (pix + x) (replicate n v @ px))
                else Inl UndefinedBehaviour)"
proof (cases "pix + x + n \<le> length a")
  case True
  let ?a2 = "pcx_store a (pix + x) (replicate n v)"
  have np: "nat (int pix + int x) = pix + x" by simp
  have run: "pcx_run a (int pix) (int x) v n = Inr (?a2, int (x + n))"
    using pcx_run_store[of "int pix" "int x" n a v] True by (simp add: np)
  have l2: "length ?a2 = length a" using True by (simp add: pcx_store_length)
  have le2: "pix + (x + n) \<le> length ?a2" using True l2 by simp
  note r = ih[OF le2]
  show ?thesis
  proof (cases "pcx_row_pixels raw' (x + n) w")
    case None
    with r run show ?thesis by simp
  next
    case (Some q)
    obtain px rest where q: "q = (px, rest)" by (cases q)
    show ?thesis
    proof (cases "pix + x + (n + length px) \<le> length a")
      case le3: True
      have "pcx_store ?a2 (pix + x + length (replicate n v)) px
            = pcx_store a (pix + x) (replicate n v @ px)"
        using le3 by (intro pcx_store_append) simp
      then have "pcx_store ?a2 (pix + (x + n)) px = pcx_store a (pix + x) (replicate n v @ px)"
        by (simp add: add.assoc)
      with r run Some q le3 l2 show ?thesis by (simp add: add.assoc)
    next
      case False
      with r run Some q l2 show ?thesis by (simp add: add.assoc)
    qed
  qed
next
  case False
  then have "int (length a) < int pix + int x + int n" by simp
  from pcx_run_overrun[OF this] le
  have run: "pcx_run a (int pix) (int x) v n = Inl UndefinedBehaviour" by simp
  show ?thesis
  proof (cases "pcx_row_pixels raw' (x + n) w")
    case None
    with run show ?thesis by simp
  next
    case (Some q)
    obtain px rest where q: "q = (px, rest)" by (cases q)
    from False have "\<not> pix + x + (n + length px) \<le> length a" by simp
    with run Some q show ?thesis by simp
  qed
qed

lemma pcx_row_refines:
  "pix + x \<le> length a \<Longrightarrow>
   pcx_row raw a (int pix) (int x) (int w) =
     (case pcx_row_pixels raw x w of
        None \<Rightarrow> Inl UndefinedBehaviour
      | Some (px, rest) \<Rightarrow>
          if pix + x + length px \<le> length a
          then Inr (rest, pcx_store a (pix + x) px) else Inl UndefinedBehaviour)"
proof (induction raw x w arbitrary: a rule: pcx_row_pixels.induct)
  case (1 raw x w)
  show ?case
  proof (cases "x \<le> w")
    case False
    then have "\<not> int x \<le> int w" by simp
    from pcx_row_done[OF this] False "1.prems" show ?thesis
      by (simp add: pcx_row_pixels_unfold pcx_store_Nil)
  next
    case True
    then have xw: "int x \<le> int w" by simp
    show ?thesis
    proof (cases raw)
      case Nil
      with True xw show ?thesis
        by (simp add: pcx_row_pixels_unfold pcx_row_Nil)
    next
      case raw: (Cons d raw1)
      show ?thesis
      proof (cases "d AND 0xC0 = 0xC0")
        case rle: True
        show ?thesis
        proof (cases raw1)
          case Nil
          with True xw raw rle show ?thesis
            by (simp add: pcx_row_pixels_unfold pcx_row_rle_end)
        next
          case raw1: (Cons v raw2)
          let ?n = "unat (d AND 0x3F)"
          note ih = "1.IH"(1)[OF True raw rle raw1]
          from pcx_run_then_row[of pix x ?n raw2 w a v, OF ih "1.prems"]
          have A: "(case pcx_run a (int pix) (int x) v ?n of
                   Inl e \<Rightarrow> Inl e
                 | Inr (a2, x2) \<Rightarrow> pcx_row raw2 a2 (int pix) x2 (int w))
                = (case pcx_row_pixels raw2 (x + ?n) w of
                     None \<Rightarrow> Inl UndefinedBehaviour
                   | Some (px, rest) \<Rightarrow>
                       if pix + x + (?n + length px) \<le> length a
                       then Inr (rest, pcx_store a (pix + x) (replicate ?n v @ px))
                       else Inl UndefinedBehaviour)" .
          have B: "pcx_row raw a (int pix) (int x) (int w)
                = (case pcx_run a (int pix) (int x) v ?n of
                     Inl e \<Rightarrow> Inl e
                   | Inr (a2, x2) \<Rightarrow> pcx_row raw2 a2 (int pix) x2 (int w))"
            using pcx_row_rle[OF xw rle] by (simp add: raw raw1)
          have C: "pcx_row_pixels raw x w
                = (case pcx_row_pixels raw2 (x + ?n) w of
                     None \<Rightarrow> None
                   | Some (px, rest) \<Rightarrow> Some (replicate ?n v @ px, rest))"
            using True rle by (simp add: pcx_row_pixels_unfold raw raw1)
          show ?thesis
          proof (cases "pcx_row_pixels raw2 (x + ?n) w")
            case None
            then show ?thesis using A B C by simp
          next
            case (Some q)
            obtain px rest where q: "q = (px, rest)" by (cases q)
            with Some show ?thesis using A B C by (simp add: add.assoc)
          qed
        qed
      next
        case lit: False
        note ih = "1.IH"(2)[OF True raw lit]
        from pcx_run_then_row[of pix x 1 raw1 w a d, OF ih "1.prems"]
        have A: "(case pcx_run a (int pix) (int x) d 1 of
                 Inl e \<Rightarrow> Inl e
               | Inr (a2, x2) \<Rightarrow> pcx_row raw1 a2 (int pix) x2 (int w))
              = (case pcx_row_pixels raw1 (x + 1) w of
                   None \<Rightarrow> Inl UndefinedBehaviour
                 | Some (px, rest) \<Rightarrow>
                     if pix + x + (1 + length px) \<le> length a
                     then Inr (rest, pcx_store a (pix + x) (replicate 1 d @ px))
                     else Inl UndefinedBehaviour)" .
        have B: "pcx_row raw a (int pix) (int x) (int w)
              = (case pcx_run a (int pix) (int x) d 1 of
                   Inl e \<Rightarrow> Inl e
                 | Inr (a2, x2) \<Rightarrow> pcx_row raw1 a2 (int pix) x2 (int w))"
          using pcx_row_lit[OF xw lit] by (simp add: raw)
        have C: "pcx_row_pixels raw x w
              = (case pcx_row_pixels raw1 (x + 1) w of
                   None \<Rightarrow> None
                 | Some (px, rest) \<Rightarrow> Some (d # px, rest))"
          using True lit by (simp add: pcx_row_pixels_unfold raw)
        show ?thesis
        proof (cases "pcx_row_pixels raw1 (x + 1) w")
          case None
          then show ?thesis using A B C by simp
        next
          case (Some q)
          obtain px rest where q: "q = (px, rest)" by (cases q)
          with Some show ?thesis using A B C by (simp add: add.assoc)
        qed
      qed
    qed
  qed
qed

lemma pcx_row_pixels_count:
  "pcx_row_pixels raw x w = Some (px, rest) \<Longrightarrow> w + 1 \<le> x + length px"
proof (induction raw x w arbitrary: px rule: pcx_row_pixels.induct)
  case (1 raw x w)
  show ?case
  proof (cases "x \<le> w")
    case False
    then show ?thesis by simp
  next
    case True
    from "1.prems" True obtain d raw1 where raw: "raw = d # raw1"
      by (cases raw) (simp_all add: pcx_row_pixels_unfold)
    show ?thesis
    proof (cases "d AND 0xC0 = 0xC0")
      case rle: True
      from "1.prems" True rle raw obtain v raw2 where raw1: "raw1 = v # raw2"
        by (cases raw1) (simp_all add: pcx_row_pixels_unfold)
      let ?n = "unat (d AND 0x3F)"
      from "1.prems" True rle raw raw1 obtain px' where
        r: "pcx_row_pixels raw2 (x + ?n) w = Some (px', rest)" and p: "px = replicate ?n v @ px'"
        by (auto simp: pcx_row_pixels_unfold split: option.splits)
      from "1.IH"(1)[OF True raw rle raw1 r] p show ?thesis by simp
    next
      case lit: False
      from "1.prems" True lit raw obtain px' where
        r: "pcx_row_pixels raw1 (x + 1) w = Some (px', rest)" and p: "px = d # px'"
        by (auto simp: pcx_row_pixels_unfold split: option.splits)
      from "1.IH"(2)[OF True raw lit r] p show ?thesis by simp
    qed
  qed
qed

lemma pcx_image_length: "pcx_image raw k w = Some img \<Longrightarrow> length img = k * (w + 1)"
proof (induction k arbitrary: raw img)
  case 0
  then show ?case by simp
next
  case (Suc k)
  from Suc.prems obtain px rest img' where
    r: "pcx_row_pixels raw 0 w = Some (px, rest)" and i: "pcx_image rest k w = Some img'"
    and e: "img = take (w + 1) px @ img'"
    by (auto split: option.splits if_splits)
  from pcx_row_pixels_count[OF r] have "w + 1 \<le> length px" by simp
  with Suc.IH[OF i] e show ?case by simp
qed

lemma pcx_rows_refines:
  "length a = pix + k * (w + 1) \<Longrightarrow> int k = h + 1 - y \<Longrightarrow>
   pcx_rows raw a (int pix) y (int w) h =
     (case pcx_image raw k w of
        None \<Rightarrow> Inl UndefinedBehaviour
      | Some img \<Rightarrow> Inr (take pix a @ img))"
proof (induction k arbitrary: raw a pix y)
  case 0
  then have "\<not> y \<le> h" by simp
  from pcx_rows_done[OF this] 0 show ?case by simp
next
  case (Suc k)
  then have yh: "y \<le> h" by simp
  have le0: "pix + 0 \<le> length a" using Suc.prems(1) by simp
  note row = pcx_row_refines[OF le0, of raw w, simplified]
  show ?case
  proof (cases "pcx_row_pixels raw 0 w")
    case None
    with row yh show ?thesis by (simp add: pcx_rows_step)
  next
    case (Some q)
    obtain px rest where q: "q = (px, rest)" by (cases q)
    from pcx_row_pixels_count[OF Some[unfolded q]] have cnt: "w + 1 \<le> length px" by simp
    show ?thesis
    proof (cases "pix + length px \<le> length a")
      case False
      with Suc.prems(1) have "Suc k * (w + 1) < length px" by simp
      with row Some q False yh show ?thesis by (simp add: pcx_rows_step)
    next
      case True
      with Suc.prems(1) have fits: "\<not> Suc k * (w + 1) < length px" by simp
      let ?a2 = "pcx_store a pix px"
      have r1: "pcx_row raw a (int pix) 0 (int w) = Inr (rest, ?a2)"
        using row Some q True by simp
      have l2: "length ?a2 = (pix + (w + 1)) + k * (w + 1)"
        using True Suc.prems(1) by (simp add: pcx_store_length)
      have k2: "int k = h + 1 - (y + 1)" using Suc.prems(2) by simp
      from Suc.IH[OF l2 k2, of rest]
      have r2: "pcx_rows rest ?a2 (int (pix + (w + 1))) (y + 1) (int w) h =
                  (case pcx_image rest k w of
                     None \<Rightarrow> Inl UndefinedBehaviour
                   | Some img \<Rightarrow> Inr (take (pix + (w + 1)) ?a2 @ img))" .
      have tk: "take (pix + (w + 1)) ?a2 = take pix a @ take (w + 1) px"
        using True cnt by (intro pcx_store_take) simp_all
      have pi: "int pix + (int w + 1) = int (pix + (w + 1))" by simp
      have "pcx_rows raw a (int pix) y (int w) h
            = pcx_rows rest ?a2 (int (pix + (w + 1))) (y + 1) (int w) h"
        using yh r1 by (simp add: pcx_rows_step pi)
      with r2 tk Some q fits show ?thesis by (simp split: option.splits)
    qed
  qed
qed

text \<open>
  C1 (as the code has it). For an image of at least one row and one column the decoder
  produces exactly the image of \<open>pcx_image\<close>, or has no defined outcome where there is
  none (a read behind the payload or a store behind the buffer; no test stops either):
  the rows in row-major order, each row reading on where the row before it stopped. The
  buffer then holds \<open>(w + 1) * (h + 1)\<close> indices, and all of them were written: nothing of
  what it held before is left. A row stores the pixels of its runs from its own offset on
  without cutting the last run at the end of the row: the pixels in excess go into the
  cells that follow, which the next rows write over.
\<close>

theorem pcx_decode_fills_every_cell:
  assumes "0 \<le> w" and "0 \<le> h"
  shows "pcx_decode heap raw_b w h
           = (case pcx_image raw_b (nat (h + 1)) (nat w) of
                None \<Rightarrow> Inl UndefinedBehaviour
              | Some img \<Rightarrow> Inr img)
       \<and> (\<forall>out1. pcx_decode heap raw_b w h = Inr out1 \<longrightarrow>
             length out1 = nat ((w + 1) * (h + 1)) \<and>
             (\<forall>heap'. pcx_decode heap' raw_b w h = Inr out1))
       \<and> (\<forall>raw px rest a pix. pcx_row_pixels raw 0 (nat w) = Some (px, rest) \<longrightarrow>
             nat w + 1 \<le> length px \<and>
             (pix + length px \<le> length a \<longrightarrow>
                pcx_row raw a (int pix) 0 w
                  = Inr (rest, take pix a @ px @ drop (pix + length px) a)))"
proof -
  let ?k = "nat (h + 1)" and ?w = "nat w"
  have dec: "pcx_decode hp raw_b w h
           = (case pcx_image raw_b ?k ?w of
                None \<Rightarrow> Inl UndefinedBehaviour
              | Some img \<Rightarrow> Inr img)" for hp
  proof -
    let ?a = "map hp [0..<nat ((h + 1) * (w + 1))]"
    have "nat ((h + 1) * (w + 1)) = ?k * (?w + 1)"
      using assms by (simp add: nat_mult_distrib nat_add_distrib)
    then have len: "length ?a = 0 + ?k * (?w + 1)" by simp
    have k: "int ?k = h + 1 - 0" using assms(2) by simp
    from pcx_rows_refines[OF len k, of raw_b] assms(1)
    show ?thesis by (simp add: pcx_decode_def Let_def split: option.splits)
  qed
  have c2: "\<forall>out1. pcx_decode heap raw_b w h = Inr out1 \<longrightarrow>
             length out1 = nat ((w + 1) * (h + 1)) \<and>
             (\<forall>heap'. pcx_decode heap' raw_b w h = Inr out1)"
  proof (intro allI impI)
    fix out1 assume o: "pcx_decode heap raw_b w h = Inr out1"
    with dec[of heap] have img: "pcx_image raw_b ?k ?w = Some out1"
      by (simp split: option.splits)
    from pcx_image_length[OF img] have "length out1 = ?k * (?w + 1)" .
    also have "\<dots> = nat ((w + 1) * (h + 1))"
      using assms by (simp add: nat_mult_distrib nat_add_distrib)
    finally have "length out1 = nat ((w + 1) * (h + 1))" .
    moreover have "\<forall>heap'. pcx_decode heap' raw_b w h = Inr out1"
      using dec img by simp
    ultimately show "length out1 = nat ((w + 1) * (h + 1)) \<and>
             (\<forall>heap'. pcx_decode heap' raw_b w h = Inr out1)" by blast
  qed
  have c3: "\<forall>raw px rest a pix. pcx_row_pixels raw 0 ?w = Some (px, rest) \<longrightarrow>
             ?w + 1 \<le> length px \<and>
             (pix + length px \<le> length a \<longrightarrow>
                pcx_row raw a (int pix) 0 w
                  = Inr (rest, take pix a @ px @ drop (pix + length px) a))"
  proof (intro allI impI conjI)
    fix raw px rest :: "byte list" and a :: "byte list" and pix :: nat
    assume r: "pcx_row_pixels raw 0 ?w = Some (px, rest)"
    from pcx_row_pixels_count[OF r] show "?w + 1 \<le> length px" by simp
    assume le: "pix + length px \<le> length a"
    then have le0: "pix + 0 \<le> length a" by simp
    from pcx_row_refines[OF le0, of raw ?w] r le assms(1)
    show "pcx_row raw a (int pix) 0 w = Inr (rest, take pix a @ px @ drop (pix + length px) a)"
      by (simp add: pcx_store_def)
  qed
  from dec[of heap] c2 c3 show ?thesis by blast
qed

lemma pcx_image_2x2: "pcx_image [0xC3, 5, 7, 8] (Suc (Suc 0)) (Suc 0) = Some [5, 5, 7, 8]"
  by (simp add: pcx_row_pixels_unfold)

text \<open>
  At the payload \<open>C3 05 07 08\<close> for a 2 by 2 image: the first row has the three pixels
  5, 5, 5 of its run, the image has the first two of them, and the third, stored in the
  first cell of the second row, is written over by the 7 of that row.
\<close>

theorem pcx_decode_fills_every_cell_witness:
  "pcx_row_pixels [0xC3, 5, 7, 8] 0 1 = Some ([5, 5, 5], [7, 8])
   \<and> pcx_image [0xC3, 5, 7, 8] 2 1 = Some [5, 5, 7, 8]
   \<and> pcx_decode zero_heap [0xC3, 5, 7, 8] 1 1 = Inr [5, 5, 7, 8]
   \<and> length [5, 5, 7, 8 :: byte] = nat ((1 + 1) * (1 + 1))
   \<and> pcx_decode nine_heap [0xC3, 5, 7, 8] 1 1 = Inr [5, 5, 7, 8]"
proof -
  have i: "pcx_image [0xC3, 5, 7, 8] 2 1 = Some [5, 5, 7, 8]"
    using pcx_image_2x2 by (simp add: numeral_2_eq_2)
  have r: "pcx_row_pixels [0xC3, 5, 7, 8] 0 1 = Some ([5, 5, 5], [7, 8])"
  proof -
    have "replicate 3 (5 :: byte) = [5, 5, 5]" by (simp add: numeral_3_eq_3)
    then show ?thesis by (simp add: pcx_row_pixels_unfold)
  qed
  have n: "nat (1 + 1) = 2" "nat 1 = 1" by simp_all
  have h01: "(0::int) \<le> 1" by simp
  note T = pcx_decode_fills_every_cell[OF h01 h01, of zero_heap "[0xC3, 5, 7, 8]"]
  from T have z: "pcx_decode zero_heap [0xC3, 5, 7, 8] 1 1 = Inr [5, 5, 7, 8]"
    by (simp only: n i option.case)
  from T z have "pcx_decode nine_heap [0xC3, 5, 7, 8] 1 1 = Inr [5, 5, 7, 8]" by blast
  with i r z show ?thesis by simp
qed

text \<open>
  C1 as stated fails. The payload \<open>C3 05 07 08\<close> for a 2 by 2 image is decoded without
  complaint although its first run has three pixels: decoding row 0 alone (offset 0,
  \<open>pcx_width\<close> 1) stores at the positions 0, 1 and 2, and position 2 is the first cell of
  row 1; with the two stores of row 1 that makes five stores for four cells. The payload
  \<open>C2 07\<close> for a 1 by 1 image makes the decoder store behind the one-byte buffer: no
  test stops it, the outcome is not \<open>FormatError\<close> but an execution without meaning.
\<close>

theorem pcx_decode_run_crosses_row:
  "pcx_row [0xC3, 5, 7, 8] [0, 0, 0, 0] 0 0 1 = Inr ([7, 8], [5, 5, 5, 0])
   \<and> pcx_decode zero_heap [0xC3, 5, 7, 8] 1 1 = Inr [5, 5, 7, 8]
   \<and> pcx_decode zero_heap [0xC2, 7] 0 0 = Inl UndefinedBehaviour"
  by (simp add: pcx_decode_def Let_def pcx_rows_step pcx_rows_done pcx_row_unfold upt_rec pcx_run_numeral
      zero_heap_def)

subsection \<open>The header test of \<open>convertPcx\<close>\<close>

lemma pcx_decode_error: "pcx_decode hp raw w h = Inl e \<Longrightarrow> e = UndefinedBehaviour"
  by (auto simp: pcx_decode_def Let_def dest: pcx_rows_error)

text \<open>
  C6 (as the code has it). \<open>convertPcx\<close> returns with "Bad pcx file" exactly when one of
  the four constants is wrong or one of the differences \<open>xmax - xmin\<close>, \<open>ymax - ymin\<close> is
  4096 or more; an image is handed on only when the constants are right, and its width
  \<open>xmax - xmin + 1\<close> and height \<open>ymax - ymin + 1\<close> are then at most 4096.
\<close>

theorem convertPcx_header_test:
  "(convertPcx tbl g hp fs sz entry (Some pcx) isSkin = Inl FormatError \<longleftrightarrow>
      (manufacturer pcx \<noteq> 0x0a \<or> version pcx \<noteq> 5 \<or> encoding pcx \<noteq> 1 \<or>
       bits_per_pixel pcx \<noteq> 8 \<or>
       4096 \<le> uint (xmax pcx) - uint (xmin pcx) \<or> 4096 \<le> uint (ymax pcx) - uint (ymin pcx)))
   \<and> (\<forall>wd ht rgba. convertPcx tbl g hp fs sz entry (Some pcx) isSkin = Inr (wd, ht, rgba) \<longrightarrow>
          manufacturer pcx = 0x0a \<and> version pcx = 5 \<and> encoding pcx = 1 \<and>
          bits_per_pixel pcx = 8 \<and>
          wd = uint (xmax pcx) - uint (xmin pcx) + 1 \<and> wd \<le> 4096 \<and>
          ht = uint (ymax pcx) - uint (ymin pcx) + 1 \<and> ht \<le> 4096)"
proof -
  let ?bad = "manufacturer pcx \<noteq> 0x0a \<or> version pcx \<noteq> 5 \<or> encoding pcx \<noteq> 1 \<or>
       bits_per_pixel pcx \<noteq> 8 \<or>
       4096 \<le> uint (xmax pcx) - uint (xmin pcx) \<or> 4096 \<le> uint (ymax pcx) - uint (ymin pcx)"
  let ?r = "convertPcx tbl g hp fs sz entry (Some pcx) isSkin"
  have bad: "?r = Inl FormatError" if "?bad"
    using that by (auto simp: convertPcx_def Let_def)
  have good: "?r \<noteq> Inl FormatError" if "\<not> ?bad"
    using that
    by (auto simp: convertPcx_def Let_def split: option.splits sum.splits
        dest: pcx_decode_error)
  have acc: "\<not> ?bad \<and> wd = uint (xmax pcx) - uint (xmin pcx) + 1
             \<and> ht = uint (ymax pcx) - uint (ymin pcx) + 1"
    if "?r = Inr (wd, ht, rgba)" for wd ht rgba
  proof -
    have nb: "\<not> ?bad" using bad that by auto
    with that show ?thesis
      by (auto simp: convertPcx_def Let_def split: option.splits sum.splits if_splits)
  qed
  have iff: "?r = Inl FormatError \<longleftrightarrow> ?bad" using bad good by blast
  from acc have "\<forall>wd ht rgba. ?r = Inr (wd, ht, rgba) \<longrightarrow>
          manufacturer pcx = 0x0a \<and> version pcx = 5 \<and> encoding pcx = 1 \<and>
          bits_per_pixel pcx = 8 \<and>
          wd = uint (xmax pcx) - uint (xmin pcx) + 1 \<and> wd \<le> 4096 \<and>
          ht = uint (ymax pcx) - uint (ymin pcx) + 1 \<and> ht \<le> 4096"
    by (intro allI impI) (use acc in force)
  with iff show ?thesis by (rule conjI)
qed



lemma convertPcx_small:
  "convertPcx tbl g hp (\<lambda>h. small_pcx_file) 128 small_pcx_entry (Some good_header) False
     = Inr (2, 2, colorize tbl [5, 5, 7, 8])"
  by (simp add: convertPcx_def good_header_def small_pcx_file_def small_pcx_entry_def
      to_int32_def fread1_def pcx_decode_2x2)

theorem convertPcx_header_test_witness:
  "convertPcx black_at_1_table no_garbage zero_heap (\<lambda>h. small_pcx_file) 128 small_pcx_entry
       (Some good_header) False = Inr (2, 2, colorize black_at_1_table [5, 5, 7, 8])
   \<and> manufacturer good_header = 0x0a
   \<and> uint (xmax good_header) - uint (xmin good_header) + 1 = 2
   \<and> (2::int) \<le> 4096"
proof -
  have r: "convertPcx black_at_1_table no_garbage zero_heap (\<lambda>h. small_pcx_file) 128
       small_pcx_entry (Some good_header) False = Inr (2, 2, colorize black_at_1_table [5, 5, 7, 8])"
    by (rule convertPcx_small)
  from convertPcx_header_test[of black_at_1_table no_garbage zero_heap "\<lambda>h. small_pcx_file" 128
      small_pcx_entry good_header False] r
  show ?thesis by auto
qed

lemma pcx_row_zero_lit:
  "k < length a \<Longrightarrow>
   pcx_row (0 # raw) a (int k) 0 0 = Inr (raw, a[k := 0])"
  by (simp add: pcx_row_unfold)

lemma pcx_rows_zero_column:
  "n = nat (h + 1 - y) \<Longrightarrow> y \<le> h + 1 \<Longrightarrow> n \<le> m \<Longrightarrow> k + n \<le> length a \<Longrightarrow>
   pcx_rows (replicate m 0) a (int k) y 0 h = Inr (take k a @ replicate n 0 @ drop (k + n) a)"
proof (induction n arbitrary: m a k y)
  case 0
  then have "\<not> y \<le> h" by simp
  then show ?case using 0 by (simp add: pcx_rows_done)
next
  case (Suc n)
  from Suc.prems have yh: "y \<le> h" by simp
  from Suc.prems obtain m' where m: "m = Suc m'" by (cases m) simp_all
  from Suc.prems have k: "k < length a" by simp
  have n': "n = nat (h + 1 - (y + 1))" using Suc.prems(1) by simp
  have step: "pcx_rows (replicate m 0) a (int k) y 0 h
        = pcx_rows (replicate m' 0) (a[k := 0]) (int (k + 1)) (y + 1) 0 h"
    using yh k by (simp add: pcx_rows_step m pcx_row_zero_lit add.commute)
  also have "\<dots> = Inr (take (k + 1) (a[k := 0]) @ replicate n 0 @ drop (k + 1 + n) (a[k := 0]))"
    using Suc.prems m by (intro Suc.IH[OF n']) simp_all
  also have "take (k + 1) (a[k := 0]) = take k a @ [0]"
    using k by (simp add: take_Suc_conv_app_nth)
  also have "drop (k + 1 + n) (a[k := 0]) = drop (k + Suc n) a"
    by simp
  finally show ?case by (simp add: replicate_app_Cons_same)
qed

lemma pcx_decode_tall: "pcx_decode hp (replicate 4096 0) 0 4095 = Inr (replicate 4096 0)"
proof -
  have "pcx_rows (replicate 4096 0) (map hp [0..<4096]) (int 0) 0 0 4095
        = Inr (take 0 (map hp [0..<4096]) @ replicate 4096 0 @ drop (0 + 4096) (map hp [0..<4096]))"
    by (rule pcx_rows_zero_column) simp_all
  then show ?thesis by (simp add: pcx_decode_def Let_def)
qed

text \<open>
  C6 as stated fails: the header below has \<open>ymax - ymin + 1 = 4096\<close>, a height that is
  not below 4096, and the image is decoded and handed on.
\<close>

theorem convertPcx_accepts_4096:
  "uint (ymax tall_header) - uint (ymin tall_header) + 1 = 4096
   \<and> convertPcx black_at_1_table no_garbage zero_heap (\<lambda>h. tall_pcx_file) 128 tall_pcx_entry
       (Some tall_header) False
     = Inr (1, 4096, colorize black_at_1_table (replicate 4096 0))"
  by (simp add: convertPcx_def tall_header_def tall_pcx_file_def tall_pcx_entry_def
      to_int32_def fread1_def pcx_decode_tall)

subsection \<open>The archive reader\<close>

lemma sint_eq_uint_32:
  fixes w :: "32 word"
  assumes "uint w < 2 ^ 31"
  shows "sint w = uint w"
proof -
  have "sint w = signed_take_bit 31 (uint w)" by (simp add: sint_uint)
  also have "\<dots> = uint w"
  proof (rule signed_take_bit_int_eq_self)
    have "0 \<le> uint w" by simp
    moreover have "- (2 ^ 31) \<le> (0::int)" by simp
    ultimately show "- (2 ^ 31) \<le> uint w" by (rule order_trans[rotated])
    show "uint w < 2 ^ 31" by (rule assms)
  qed
  finally show ?thesis .
qed

lemma numFiles_of_nonneg:
  assumes "0 \<le> sint d" and "sizeof_name H < 2 ^ 32"
  shows "numFiles_of H d = sint d div int (sizeof_dpackfile_t H)"
proof -
  let ?s = "sizeof_dpackfile_t H"
  have s0: "0 < ?s" by (simp add: sizeof_dpackfile_t_def)
  have s64: "?s < 2 ^ 64" using assms(2) by (simp add: sizeof_dpackfile_t_def)
  have d31: "sint d < 2 ^ 31" using sint_lt[of d] by simp
  have u1: "uint (scast d :: 64 word) = sint d"
  proof -
    have "uint (scast d :: 64 word) = sint d mod 2 ^ 64"
      by (simp only: scast_eq uint_word_of_int) simp
    with assms(1) d31 show ?thesis by simp
  qed
  have u2: "uint (word_of_nat ?s :: 64 word) = int ?s"
    using s64 by (simp add: unsigned_of_nat take_bit_nat_eq_self)
  have q: "uint ((scast d :: 64 word) div word_of_nat ?s) = sint d div int ?s"
    by (simp only: uint_div u1 u2)
  have qb: "0 \<le> sint d div int ?s" "sint d div int ?s < 2 ^ 31"
  proof -
    show "0 \<le> sint d div int ?s" using assms(1) s0 by (simp add: pos_imp_zdiv_nonneg_iff)
    have "sint d div int ?s \<le> sint d div 1"
      using assms(1) s0 by (intro zdiv_mono2) simp_all
    then have "sint d div int ?s \<le> sint d" by simp
    with d31 show "sint d div int ?s < 2 ^ 31" by simp
  qed
  have "uint (ucast ((scast d :: 64 word) div word_of_nat ?s) :: 32 word)
          = take_bit 32 (sint d div int ?s)"
    by (simp only: unsigned_ucast_eq q) simp
  also have "\<dots> = sint d div int ?s"
    using qb by (simp add: take_bit_int_eq_self)
  finally have u3: "uint (ucast ((scast d :: 64 word) div word_of_nat ?s) :: 32 word)
          = sint d div int ?s" .
  have "sint (ucast ((scast d :: 64 word) div word_of_nat ?s) :: 32 word)
          = sint d div int ?s"
    using qb u3 sint_eq_uint_32[of "ucast ((scast d :: 64 word) div word_of_nat ?s)"]
    by simp
  then show ?thesis by (simp add: numFiles_of_def)
qed

lemma unat_scast_nonneg:
  fixes d :: "32 word"
  assumes "0 \<le> sint d"
  shows "unat (scast d :: 64 word) = nat (sint d)"
proof -
  have d31: "sint d < 2 ^ 31" using sint_lt[of d] by simp
  have "uint (scast d :: 64 word) = sint d mod 2 ^ 64"
    by (simp only: scast_eq uint_word_of_int) simp
  with assms d31 have "uint (scast d :: 64 word) = sint d" by simp
  then show ?thesis by (simp add: unat_eq_nat_uint)
qed

lemma FS_LoadPAK_loop_spec:
  "0 \<le> i \<Longrightarrow> i \<le> n \<Longrightarrow> length files = nat i \<Longrightarrow>
   length (FS_LoadPAK_loop H mem i n files) = nat n \<and>
   (\<forall>k < nat n. FS_LoadPAK_loop H mem i n files ! k =
       (if k < nat i then files ! k
        else \<lparr> pf_name = c_string 256 (drop (k * sizeof_dpackfile_t H) mem),
                pf_size = sint (le32 mem (k * sizeof_dpackfile_t H + sizeof_name H + 4)),
                pf_offset = sint (le32 mem (k * sizeof_dpackfile_t H + sizeof_name H)) \<rparr>))"
proof (induction H mem i n files rule: FS_LoadPAK_loop.induct)
  case (1 H mem i numFiles files)
  let ?E = "\<lambda>k. \<lparr> pf_name = c_string 256 (drop (k * sizeof_dpackfile_t H) mem),
                pf_size = sint (le32 mem (k * sizeof_dpackfile_t H + sizeof_name H + 4)),
                pf_offset = sint (le32 mem (k * sizeof_dpackfile_t H + sizeof_name H)) \<rparr>"
  show ?case
  proof (cases "i < numFiles")
    case False
    with "1.prems" have "i = numFiles" by simp
    with "1.prems" show ?thesis by (simp add: FS_LoadPAK_loop.simps[of H mem numFiles])
  next
    case True
    have len: "length (files @ [?E (nat i)]) = nat (i + 1)"
      using "1.prems" by (simp add: nat_add_distrib)
    from "1.IH"[OF True _ _ len] "1.prems" True
    have ih: "length (FS_LoadPAK_loop H mem (i + 1) numFiles (files @ [?E (nat i)])) = nat numFiles"
      "\<forall>k < nat numFiles. FS_LoadPAK_loop H mem (i + 1) numFiles (files @ [?E (nat i)]) ! k =
       (if k < nat (i + 1) then (files @ [?E (nat i)]) ! k else ?E k)"
      by simp_all
    have unf: "FS_LoadPAK_loop H mem i numFiles files
               = FS_LoadPAK_loop H mem (i + 1) numFiles (files @ [?E (nat i)])"
      using True by (subst FS_LoadPAK_loop.simps) simp
    have "FS_LoadPAK_loop H mem (i + 1) numFiles (files @ [?E (nat i)]) ! k =
       (if k < nat i then files ! k else ?E k)" if "k < nat numFiles" for k
    proof (cases "k < nat i")
      case True
      with ih(2) that "1.prems" show ?thesis by (simp add: nth_append nat_add_distrib)
    next
      case ge: False
      show ?thesis
      proof (cases "k = nat i")
        case True
        with ih(2) that "1.prems" show ?thesis by (simp add: nth_append nat_add_distrib)
      next
        case False
        with ge have "\<not> k < nat (i + 1)" using "1.prems" by (simp add: nat_add_distrib)
        with ih(2) that ge show ?thesis by simp
      qed
    qed
    with ih(1) unf show ?thesis by simp
  qed
qed

text \<open>Reading in a buffer that \<open>fread\<close> has filled in part.\<close>

lemma fread_into_nth_file:
  assumes "q < length (take n (drop pos content))"
  shows "fread_into buf content pos n ! q = content ! (pos + q)"
proof -
  define g where "g = take n (drop pos content)"
  from assms have "q < n" and "q < length content - pos" by simp_all
  then have "q < n" and "pos + q < length content" by linarith+
  then have "g ! q = content ! (pos + q)" by (simp add: g_def)
  moreover have "fread_into buf content pos n = g @ drop (length g) buf"
    by (simp only: fread_into_def g_def)
  moreover have "q < length g" using assms by (simp only: g_def)
  ultimately show ?thesis by (simp only: nth_append if_True)
qed

lemma fread_into_nth_buf:
  assumes "length (take n (drop pos content)) \<le> q"
    and "length (take n (drop pos content)) \<le> length buf"
  shows "fread_into buf content pos n ! q = buf ! q"
proof -
  define g where "g = take n (drop pos content)"
  have f: "fread_into buf content pos n = g @ drop (length g) buf"
    by (simp only: fread_into_def g_def)
  have le: "length g \<le> q" "length g \<le> length buf" using assms by (simp_all only: g_def)
  then have "\<not> q < length g" by simp
  then have "(g @ drop (length g) buf) ! q = drop (length g) buf ! (q - length g)"
    by (simp only: nth_append if_False)
  also have "\<dots> = buf ! (length g + (q - length g))" using le(2) by (rule nth_drop)
  also have "length g + (q - length g) = q" using le(1) by simp
  finally show ?thesis by (simp only: f)
qed

lemma le32_fread_into_file:
  assumes "p + 3 < length (take n (drop pos content))"
  shows "le32 (fread_into buf content pos n) p = le32 content (pos + p)"
proof -
  have "fread_into buf content pos n ! q = content ! (pos + q)" if "q \<le> p + 3" for q
  proof (rule fread_into_nth_file)
    from that assms show "q < length (take n (drop pos content))" by (rule le_less_trans)
  qed
  then have "fread_into buf content pos n ! p = content ! (pos + p)"
    "fread_into buf content pos n ! (p + 1) = content ! (pos + p + 1)"
    "fread_into buf content pos n ! (p + 2) = content ! (pos + p + 2)"
    "fread_into buf content pos n ! (p + 3) = content ! (pos + p + 3)"
    by (simp_all add: add.assoc)
  then show ?thesis by (simp only: le32_def)
qed

lemma le32_fread_into_buf:
  assumes "length (take n (drop pos content)) \<le> p"
    and "length (take n (drop pos content)) \<le> length buf"
  shows "le32 (fread_into buf content pos n) p = le32 buf p"
proof -
  have "fread_into buf content pos n ! q = buf ! q" if "p \<le> q" for q
  proof (rule fread_into_nth_buf[OF _ assms(2)])
    from assms(1) that show "length (take n (drop pos content)) \<le> q" by (rule le_trans)
  qed
  then have "fread_into buf content pos n ! p = buf ! p"
    "fread_into buf content pos n ! (p + 1) = buf ! (p + 1)"
    "fread_into buf content pos n ! (p + 2) = buf ! (p + 2)"
    "fread_into buf content pos n ! (p + 3) = buf ! (p + 3)"
    by simp_all
  then show ?thesis by (simp only: le32_def)
qed

lemma c_string_terminated:
  assumes "\<exists>b \<in> set (take k m). b = 0" and "k \<le> n"
  shows "c_string n m = c_string k m"
proof -
  have "take n m = take k m @ drop k (take n m)"
    using assms(2) by (metis append_take_drop_id min.absorb1 take_take)
  moreover have "takeWhile (\<lambda>b. b \<noteq> 0) (take k m @ drop k (take n m))
                 = takeWhile (\<lambda>b. b \<noteq> 0) (take k m)"
    using assms(1) by (intro takeWhile_append1[where x = 0]) auto
  ultimately show ?thesis by (simp add: c_string_def)
qed

lemma c_string_fread_into_file:
  assumes "r + k \<le> length (take n (drop pos content))"
  shows "c_string k (drop r (fread_into buf content pos n)) = c_string k (drop (pos + r) content)"
proof -
  let ?g = "take n (drop pos content)"
  have "take k (drop r (fread_into buf content pos n)) = take k (drop r ?g)"
    using assms by (simp add: fread_into_def)
  also have "\<dots> = take k (drop (pos + r) content)"
  proof -
    have "drop r ?g = take (n - r) (drop (pos + r) content)"
      by (simp add: drop_take add.commute)
    moreover have "k \<le> n - r"
    proof -
      from assms have "r + k \<le> n" by simp
      then show ?thesis by linarith
    qed
    ultimately show ?thesis by (simp add: min_def)
  qed
  finally have "take k (drop r (fread_into buf content pos n)) = take k (drop (pos + r) content)" .
  then show ?thesis by (simp add: c_string_def)
qed

lemma take_fread_into_file:
  assumes "r + k \<le> length (take n (drop pos content))"
  shows "take k (drop r (fread_into buf content pos n)) = take k (drop (pos + r) content)"
proof -
  let ?g = "take n (drop pos content)"
  have "take k (drop r (fread_into buf content pos n)) = take k (drop r ?g)"
    using assms by (simp add: fread_into_def)
  also have "\<dots> = take k (drop (pos + r) content)"
  proof -
    have "drop r ?g = take (n - r) (drop (pos + r) content)"
      by (simp add: drop_take add.commute)
    moreover have "k \<le> n - r"
    proof -
      from assms have "r + k \<le> n" by simp
      then show ?thesis by linarith
    qed
    ultimately show ?thesis by (simp add: min_def)
  qed
  finally show ?thesis .
qed

lemma FS_LoadPAK_unfold:
  assumes "12 \<le> length (ps_bytes f)"
  shows "FS_LoadPAK H packPath (Some f) =
     (if le32 (ps_bytes f) 0 \<noteq> IDPAKHEADER H then Inr None
      else if numFiles_of H (le32 (ps_bytes f) 8) > MAX_FILES_IN_PACK H
              \<or> numFiles_of H (le32 (ps_bytes f) 8) = 0 then Inr None
      else if nat (MAX_FILES_IN_PACK H) * sizeof_dpackfile_t H
                < length (take (unat (scast (le32 (ps_bytes f) 8) :: 64 word))
                            (drop (if sint (le32 (ps_bytes f) 4) < 0 then 12
                                   else nat (sint (le32 (ps_bytes f) 4))) (ps_bytes f)))
           then Inl UndefinedBehaviour
           else Inr (Some \<lparr> pk_name = take 256 packPath,
                            pk_numFiles = numFiles_of H (le32 (ps_bytes f) 8),
                            pk_pak = ps_handle f,
                            pk_files = FS_LoadPAK_loop H
                               (fread_into (ps_info0 f) (ps_bytes f)
                                  (if sint (le32 (ps_bytes f) 4) < 0 then 12
                                   else nat (sint (le32 (ps_bytes f) 4)))
                                  (unat (scast (le32 (ps_bytes f) 8) :: 64 word)))
                               0 (numFiles_of H (le32 (ps_bytes f) 8)) [] \<rparr>))"
proof -
  let ?hd = "fread_into (ps_header0 f) (ps_bytes f) 0 sizeof_dpackheader_t"
  have l: "length (take 12 (drop 0 (ps_bytes f))) = 12" using assms by simp
  have h: "le32 ?hd 0 = le32 (ps_bytes f) 0" "le32 ?hd 4 = le32 (ps_bytes f) 4"
    "le32 ?hd 8 = le32 (ps_bytes f) 8"
    unfolding sizeof_dpackheader_t_def
    using le32_fread_into_file[of 0 12 0 "ps_bytes f" "ps_header0 f"]
      le32_fread_into_file[of 4 12 0 "ps_bytes f" "ps_header0 f"]
      le32_fread_into_file[of 8 12 0 "ps_bytes f" "ps_header0 f"] l
    by simp_all
  have m: "min sizeof_dpackheader_t (length (ps_bytes f)) = 12"
    using assms by (simp add: sizeof_dpackheader_t_def)
  show ?thesis
    unfolding FS_LoadPAK_def Let_def option.case h m by simp
qed

text \<open>
  C7 (as the code has it), for a container file that holds its 12-byte header. The
  container is rejected exactly when the magic differs or the entry count is zero or above
  the maximum. An accepted container has the entry count computed from the directory
  length (for a directory length that is not negative: the length divided by the record
  size) and that many entries. An entry whose record the file holds carries the offset and
  the length that stand in the record, and the name of its name field when that holds a
  zero byte; nothing compares them with the length of the file. An entry whose record
  lies behind the end of the file is made all the same, from what the array \<open>info\<close>
  held before the read. The only other outcome is a directory read that stores more
  bytes than the array has.
\<close>

theorem FS_LoadPAK_directory:
  assumes "12 \<le> length (ps_bytes f)" and "sizeof_name H \<le> 256"
  shows
   "(FS_LoadPAK H packPath (Some f) = Inr None \<longleftrightarrow>
       le32 (ps_bytes f) 0 \<noteq> IDPAKHEADER H \<or> numFiles_of H (le32 (ps_bytes f) 8) = 0 \<or>
       MAX_FILES_IN_PACK H < numFiles_of H (le32 (ps_bytes f) 8))
    \<and> (\<forall>e. FS_LoadPAK H packPath (Some f) = Inl e \<longrightarrow>
          e = UndefinedBehaviour \<and>
          nat (MAX_FILES_IN_PACK H) * sizeof_dpackfile_t H < length (ps_bytes f))
    \<and> (\<forall>pack. FS_LoadPAK H packPath (Some f) = Inr (Some pack) \<longrightarrow>
          pk_numFiles pack = numFiles_of H (le32 (ps_bytes f) 8) \<and>
          pk_pak pack = ps_handle f \<and>
          (0 \<le> sint (le32 (ps_bytes f) 8) \<longrightarrow>
             pk_numFiles pack = sint (le32 (ps_bytes f) 8) div int (sizeof_dpackfile_t H) \<and>
             length (pk_files pack) = nat (pk_numFiles pack) \<and>
             (\<forall>i < nat (pk_numFiles pack).
                (0 \<le> sint (le32 (ps_bytes f) 4) \<and>
                 nat (sint (le32 (ps_bytes f) 4)) + (i + 1) * sizeof_dpackfile_t H
                   \<le> length (ps_bytes f) \<longrightarrow>
                   pf_offset (pk_files pack ! i)
                     = sint (le32 (ps_bytes f)
                               (nat (sint (le32 (ps_bytes f) 4)) + i * sizeof_dpackfile_t H
                                + sizeof_name H)) \<and>
                   pf_size (pk_files pack ! i)
                     = sint (le32 (ps_bytes f)
                               (nat (sint (le32 (ps_bytes f) 4)) + i * sizeof_dpackfile_t H
                                + sizeof_name H + 4)) \<and>
                   ((\<exists>b \<in> set (take (sizeof_name H)
                                  (drop (nat (sint (le32 (ps_bytes f) 4))
                                         + i * sizeof_dpackfile_t H) (ps_bytes f))). b = 0) \<longrightarrow>
                      pf_name (pk_files pack ! i)
                        = c_string (sizeof_name H)
                            (drop (nat (sint (le32 (ps_bytes f) 4))
                                   + i * sizeof_dpackfile_t H) (ps_bytes f)))) \<and>
                (0 \<le> sint (le32 (ps_bytes f) 4) \<and>
                 length (ps_bytes f)
                   \<le> nat (sint (le32 (ps_bytes f) 4)) + i * sizeof_dpackfile_t H \<and>
                 nat (MAX_FILES_IN_PACK H) * sizeof_dpackfile_t H \<le> length (ps_info0 f) \<longrightarrow>
                   pf_offset (pk_files pack ! i)
                     = sint (le32 (ps_info0 f) (i * sizeof_dpackfile_t H + sizeof_name H)) \<and>
                   pf_size (pk_files pack ! i)
                     = sint (le32 (ps_info0 f)
                               (i * sizeof_dpackfile_t H + sizeof_name H + 4))))))"
proof -
  let ?b = "ps_bytes f"
  let ?n = "numFiles_of H (le32 ?b 8)"
  let ?sz = "sizeof_dpackfile_t H"
  let ?pos = "if sint (le32 ?b 4) < 0 then 12 else nat (sint (le32 ?b 4))"
  let ?len = "unat (scast (le32 ?b 8) :: 64 word)"
  let ?got = "take ?len (drop ?pos ?b)"
  let ?info = "fread_into (ps_info0 f) ?b ?pos ?len"
  note U = FS_LoadPAK_unfold[OF assms(1), of H packPath]
  have c1: "FS_LoadPAK H packPath (Some f) = Inr None \<longleftrightarrow>
       le32 ?b 0 \<noteq> IDPAKHEADER H \<or> ?n = 0 \<or> MAX_FILES_IN_PACK H < ?n"
    unfolding U by auto
  have c2: "\<forall>e. FS_LoadPAK H packPath (Some f) = Inl e \<longrightarrow>
          e = UndefinedBehaviour \<and> nat (MAX_FILES_IN_PACK H) * ?sz < length ?b"
  proof (intro allI impI)
    fix e assume "FS_LoadPAK H packPath (Some f) = Inl e"
    then have e: "e = UndefinedBehaviour" and lt: "nat (MAX_FILES_IN_PACK H) * ?sz < length ?got"
      unfolding U by (auto split: if_splits)
    have le: "length ?got \<le> length ?b" by simp
    from lt le have "nat (MAX_FILES_IN_PACK H) * ?sz < length ?b"
      by (rule order.strict_trans2)
    with e show "e = UndefinedBehaviour \<and> nat (MAX_FILES_IN_PACK H) * ?sz < length ?b"
      by (rule_tac conjI)
  qed
  have c3: "pk_numFiles pack = ?n \<and> pk_pak pack = ps_handle f \<and>
          (0 \<le> sint (le32 ?b 8) \<longrightarrow>
             pk_numFiles pack = sint (le32 ?b 8) div int ?sz \<and>
             length (pk_files pack) = nat (pk_numFiles pack) \<and>
             (\<forall>i < nat (pk_numFiles pack).
                (0 \<le> sint (le32 ?b 4) \<and>
                 nat (sint (le32 ?b 4)) + (i + 1) * ?sz \<le> length ?b \<longrightarrow>
                   pf_offset (pk_files pack ! i)
                     = sint (le32 ?b (nat (sint (le32 ?b 4)) + i * ?sz + sizeof_name H)) \<and>
                   pf_size (pk_files pack ! i)
                     = sint (le32 ?b (nat (sint (le32 ?b 4)) + i * ?sz + sizeof_name H + 4)) \<and>
                   ((\<exists>b \<in> set (take (sizeof_name H)
                                  (drop (nat (sint (le32 ?b 4)) + i * ?sz) ?b)). b = 0) \<longrightarrow>
                      pf_name (pk_files pack ! i)
                        = c_string (sizeof_name H)
                            (drop (nat (sint (le32 ?b 4)) + i * ?sz) ?b))) \<and>
                (0 \<le> sint (le32 ?b 4) \<and>
                 length ?b \<le> nat (sint (le32 ?b 4)) + i * ?sz \<and>
                 nat (MAX_FILES_IN_PACK H) * ?sz \<le> length (ps_info0 f) \<longrightarrow>
                   pf_offset (pk_files pack ! i)
                     = sint (le32 (ps_info0 f) (i * ?sz + sizeof_name H)) \<and>
                   pf_size (pk_files pack ! i)
                     = sint (le32 (ps_info0 f) (i * ?sz + sizeof_name H + 4)))))"
    if p: "FS_LoadPAK H packPath (Some f) = Inr (Some pack)" for pack
  proof -
    from p have n: "pk_numFiles pack = ?n" and hd: "pk_pak pack = ps_handle f"
      and fl: "pk_files pack = FS_LoadPAK_loop H ?info 0 ?n []"
      and fit: "\<not> nat (MAX_FILES_IN_PACK H) * ?sz < length ?got"
      unfolding U by (auto split: if_splits)
    have rest: "pk_numFiles pack = sint (le32 ?b 8) div int ?sz \<and>
             length (pk_files pack) = nat (pk_numFiles pack) \<and>
             (\<forall>i < nat (pk_numFiles pack).
                (0 \<le> sint (le32 ?b 4) \<and>
                 nat (sint (le32 ?b 4)) + (i + 1) * ?sz \<le> length ?b \<longrightarrow>
                   pf_offset (pk_files pack ! i)
                     = sint (le32 ?b (nat (sint (le32 ?b 4)) + i * ?sz + sizeof_name H)) \<and>
                   pf_size (pk_files pack ! i)
                     = sint (le32 ?b (nat (sint (le32 ?b 4)) + i * ?sz + sizeof_name H + 4)) \<and>
                   ((\<exists>b \<in> set (take (sizeof_name H)
                                  (drop (nat (sint (le32 ?b 4)) + i * ?sz) ?b)). b = 0) \<longrightarrow>
                      pf_name (pk_files pack ! i)
                        = c_string (sizeof_name H)
                            (drop (nat (sint (le32 ?b 4)) + i * ?sz) ?b))) \<and>
                (0 \<le> sint (le32 ?b 4) \<and>
                 length ?b \<le> nat (sint (le32 ?b 4)) + i * ?sz \<and>
                 nat (MAX_FILES_IN_PACK H) * ?sz \<le> length (ps_info0 f) \<longrightarrow>
                   pf_offset (pk_files pack ! i)
                     = sint (le32 (ps_info0 f) (i * ?sz + sizeof_name H)) \<and>
                   pf_size (pk_files pack ! i)
                     = sint (le32 (ps_info0 f) (i * ?sz + sizeof_name H + 4))))"
      if dl: "0 \<le> sint (le32 ?b 8)"
    proof -
      have nm32: "sizeof_name H < 2 ^ 32" using assms(2) by simp
      note nf = numFiles_of_nonneg[OF dl nm32]
      have sz0: "0 < ?sz" and szn: "?sz = sizeof_name H + 8" by (simp_all add: sizeof_dpackfile_t_def)
      have nn: "0 \<le> ?n" using dl sz0 by (simp add: nf pos_imp_zdiv_nonneg_iff)
      have len: "?len = nat (sint (le32 ?b 8))" using dl by (rule unat_scast_nonneg)
      from FS_LoadPAK_loop_spec[of 0 ?n "[]" H ?info] nn
      have ll: "length (FS_LoadPAK_loop H ?info 0 ?n []) = nat ?n"
        and ent: "\<forall>k < nat ?n. FS_LoadPAK_loop H ?info 0 ?n [] ! k =
            \<lparr> pf_name = c_string 256 (drop (k * ?sz) ?info),
              pf_size = sint (le32 ?info (k * ?sz + sizeof_name H + 4)),
              pf_offset = sint (le32 ?info (k * ?sz + sizeof_name H)) \<rparr>"
        by simp_all
      have per: "(0 \<le> sint (le32 ?b 4) \<and>
                 nat (sint (le32 ?b 4)) + (i + 1) * ?sz \<le> length ?b \<longrightarrow>
                   pf_offset (pk_files pack ! i)
                     = sint (le32 ?b (nat (sint (le32 ?b 4)) + i * ?sz + sizeof_name H)) \<and>
                   pf_size (pk_files pack ! i)
                     = sint (le32 ?b (nat (sint (le32 ?b 4)) + i * ?sz + sizeof_name H + 4)) \<and>
                   ((\<exists>b \<in> set (take (sizeof_name H)
                                  (drop (nat (sint (le32 ?b 4)) + i * ?sz) ?b)). b = 0) \<longrightarrow>
                      pf_name (pk_files pack ! i)
                        = c_string (sizeof_name H)
                            (drop (nat (sint (le32 ?b 4)) + i * ?sz) ?b))) \<and>
                (0 \<le> sint (le32 ?b 4) \<and>
                 length ?b \<le> nat (sint (le32 ?b 4)) + i * ?sz \<and>
                 nat (MAX_FILES_IN_PACK H) * ?sz \<le> length (ps_info0 f) \<longrightarrow>
                   pf_offset (pk_files pack ! i)
                     = sint (le32 (ps_info0 f) (i * ?sz + sizeof_name H)) \<and>
                   pf_size (pk_files pack ! i)
                     = sint (le32 (ps_info0 f) (i * ?sz + sizeof_name H + 4)))"
        if i: "i < nat ?n" for i
      proof -
        from ent i fl have e: "pk_files pack ! i =
            \<lparr> pf_name = c_string 256 (drop (i * ?sz) ?info),
              pf_size = sint (le32 ?info (i * ?sz + sizeof_name H + 4)),
              pf_offset = sint (le32 ?info (i * ?sz + sizeof_name H)) \<rparr>" by simp
        have held: "pf_offset (pk_files pack ! i)
                     = sint (le32 ?b (nat (sint (le32 ?b 4)) + i * ?sz + sizeof_name H)) \<and>
                   pf_size (pk_files pack ! i)
                     = sint (le32 ?b (nat (sint (le32 ?b 4)) + i * ?sz + sizeof_name H + 4)) \<and>
                   ((\<exists>b \<in> set (take (sizeof_name H)
                                  (drop (nat (sint (le32 ?b 4)) + i * ?sz) ?b)). b = 0) \<longrightarrow>
                      pf_name (pk_files pack ! i)
                        = c_string (sizeof_name H)
                            (drop (nat (sint (le32 ?b 4)) + i * ?sz) ?b))"
          if o: "0 \<le> sint (le32 ?b 4)"
            and inb: "nat (sint (le32 ?b 4)) + (i + 1) * ?sz \<le> length ?b"
        proof -
          let ?D = "nat (sint (le32 ?b 4))"
          from o have pos: "?pos = ?D" by simp
          have "int (i + 1) \<le> ?n" using i by simp
          then have "int (i + 1) * int ?sz \<le> ?n * int ?sz"
            by (intro mult_right_mono) simp_all
          also have "\<dots> \<le> sint (le32 ?b 8)"
          proof -
            have "sint (le32 ?b 8) div int ?sz * int ?sz + sint (le32 ?b 8) mod int ?sz
                  = sint (le32 ?b 8)" by (rule div_mult_mod_eq)
            moreover have "0 \<le> sint (le32 ?b 8) mod int ?sz" using sz0 by simp
            ultimately show ?thesis unfolding nf by linarith
          qed
          finally have "int ((i + 1) * ?sz) \<le> sint (le32 ?b 8)" by (simp add: algebra_simps)
          then have r1: "(i + 1) * ?sz \<le> ?len" unfolding len by linarith
          from inb have r2: "(i + 1) * ?sz \<le> length ?b - ?D" by linarith
          from r1 r2 have g: "(i + 1) * ?sz \<le> length (take ?len (drop ?D ?b))" by simp
          have ex: "(i + 1) * ?sz = i * ?sz + sizeof_name H + 8" by (simp add: szn)
          have a1: "i * ?sz + sizeof_name H + 3 < length (take ?len (drop ?D ?b))"
            using g ex by linarith
          have a2: "i * ?sz + sizeof_name H + 4 + 3 < length (take ?len (drop ?D ?b))"
            using g ex by linarith
          have a3: "i * ?sz + sizeof_name H \<le> length (take ?len (drop ?D ?b))"
            using g ex by linarith
          have o1: "le32 ?info (i * ?sz + sizeof_name H) = le32 ?b (?D + (i * ?sz + sizeof_name H))"
            unfolding pos using a1 by (rule le32_fread_into_file)
          have o2: "le32 ?info (i * ?sz + sizeof_name H + 4)
                    = le32 ?b (?D + (i * ?sz + sizeof_name H + 4))"
            unfolding pos using a2 by (rule le32_fread_into_file)
          have tk: "take (sizeof_name H) (drop (i * ?sz) ?info)
                    = take (sizeof_name H) (drop (?D + i * ?sz) ?b)"
            unfolding pos using a3 by (rule take_fread_into_file)
          have nmv: "pf_name (pk_files pack ! i)
                        = c_string (sizeof_name H) (drop (?D + i * ?sz) ?b)"
            if z: "\<exists>b \<in> set (take (sizeof_name H) (drop (?D + i * ?sz) ?b)). b = 0"
          proof -
            from z tk have "\<exists>b \<in> set (take (sizeof_name H) (drop (i * ?sz) ?info)). b = 0"
              by simp
            from c_string_terminated[OF this assms(2)]
            have "c_string 256 (drop (i * ?sz) ?info) = c_string (sizeof_name H) (drop (i * ?sz) ?info)" .
            also have "\<dots> = c_string (sizeof_name H) (drop (?D + i * ?sz) ?b)"
              by (simp add: c_string_def tk)
            finally show ?thesis by (simp add: e)
          qed
          from o1 o2 nmv show ?thesis by (simp add: e add.assoc)
        qed
        have beyond: "pf_offset (pk_files pack ! i)
                     = sint (le32 (ps_info0 f) (i * ?sz + sizeof_name H)) \<and>
                   pf_size (pk_files pack ! i)
                     = sint (le32 (ps_info0 f) (i * ?sz + sizeof_name H + 4))"
          if o: "0 \<le> sint (le32 ?b 4)"
            and out: "length ?b \<le> nat (sint (le32 ?b 4)) + i * ?sz"
            and big: "nat (MAX_FILES_IN_PACK H) * ?sz \<le> length (ps_info0 f)"
        proof -
          let ?D = "nat (sint (le32 ?b 4))"
          from o have pos: "?pos = ?D" by simp
          have "length (take ?len (drop ?D ?b)) \<le> length ?b - ?D" by simp
          also have "\<dots> \<le> i * ?sz" using out by linarith
          finally have g: "length (take ?len (drop ?D ?b)) \<le> i * ?sz" .
          have b1: "length (take ?len (drop ?D ?b)) \<le> i * ?sz + sizeof_name H"
            and b2: "length (take ?len (drop ?D ?b)) \<le> i * ?sz + sizeof_name H + 4"
            using g by linarith+
          from fit big have b3: "length (take ?len (drop ?D ?b)) \<le> length (ps_info0 f)"
            unfolding pos by linarith
          have "le32 ?info (i * ?sz + sizeof_name H) = le32 (ps_info0 f) (i * ?sz + sizeof_name H)"
            unfolding pos using b1 b3 by (rule le32_fread_into_buf)
          moreover have "le32 ?info (i * ?sz + sizeof_name H + 4)
                = le32 (ps_info0 f) (i * ?sz + sizeof_name H + 4)"
            unfolding pos using b2 b3 by (rule le32_fread_into_buf)
          ultimately show ?thesis by (simp add: e)
        qed
        from held beyond show ?thesis by blast
      qed
      from n fl nf ll per show ?thesis by simp
    qed
    with n hd show ?thesis by blast
  qed
  from c1 c2 c3 show ?thesis by blast
qed

lemma c_string_prefix:
  assumes "\<forall>b \<in> set xs. b \<noteq> 0" and "length xs < n"
  shows "c_string n (xs @ 0 # rest) = map (\<lambda>b. char_of (unat b)) xs"
proof -
  have "take n (xs @ 0 # rest) = xs @ 0 # take (n - length xs - 1) rest"
    using assms(2) by (cases "n - length xs") simp_all
  moreover have "takeWhile (\<lambda>b. b \<noteq> 0) (xs @ 0 # take (n - length xs - 1) rest) = xs"
    using assms(1) by (simp add: takeWhile_append2[of xs "\<lambda>b. b \<noteq> 0"])
  ultimately show ?thesis by (simp add: c_string_def)
qed

lemma short_pak_fields:
  "le32 short_pak_bytes 0 = 0x4B434150" "le32 short_pak_bytes 4 = 12"
  "le32 short_pak_bytes 8 = 64" "length short_pak_bytes = 76"
  by (simp_all add: le32_def short_pak_bytes_def)

lemma short_pak_numFiles: "numFiles_of quake_files_h 64 = 1"
proof -
  have "numFiles_of quake_files_h 64 = sint (64 :: 32 word) div int (sizeof_dpackfile_t quake_files_h)"
    by (rule numFiles_of_nonneg) (simp_all add: quake_files_h_def)
  then show ?thesis by (simp add: quake_files_h_def sizeof_dpackfile_t_def)
qed

lemma unat_scast_64: "unat (scast (64 :: 32 word) :: 64 word) = 64"
proof -
  have "unat (scast (64 :: 32 word) :: 64 word) = nat (sint (64 :: 32 word))"
    by (rule unat_scast_nonneg) simp
  then show ?thesis by simp
qed

lemma FS_LoadPAK_loop_one:
  "FS_LoadPAK_loop H mem 0 1 [] =
     [\<lparr> pf_name = c_string 256 mem,
        pf_size = sint (le32 mem (sizeof_name H + 4)),
        pf_offset = sint (le32 mem (sizeof_name H)) \<rparr>]"
  by (simp add: FS_LoadPAK_loop.simps[of H mem 0] FS_LoadPAK_loop.simps[of H mem 1])

lemma short_pak_loaded:
  "FS_LoadPAK quake_files_h ''pak0.pak'' (Some short_pak)
     = Inr (Some \<lparr> pk_name = ''pak0.pak'', pk_numFiles = 1, pk_pak = 2,
                    pk_files = [\<lparr> pf_name = ''pics/a.pcx'', pf_size = 500, pf_offset = 1000 \<rparr>] \<rparr>)"
proof -
  have l: "12 \<le> length (ps_bytes short_pak)" by (simp add: short_pak_def short_pak_fields)
  have b: "ps_bytes short_pak = short_pak_bytes" by (simp add: short_pak_def)
  have i: "fread_into (ps_info0 short_pak) short_pak_bytes 12 64
           = [0x70, 0x69, 0x63, 0x73, 0x2F, 0x61, 0x2E, 0x70, 0x63, 0x78] @ 0 # replicate 45 0 @
             [0xE8, 0x03, 0, 0, 0xF4, 0x01, 0, 0] @ replicate 262336 0"
  proof -
    have "(46 :: nat) = Suc 45" by simp
    then have "replicate 46 (0 :: byte) = 0 # replicate 45 0" by (simp only: replicate_Suc)
    then show ?thesis by (simp add: fread_into_def short_pak_def short_pak_bytes_def)
  qed
  have n: "c_string 256 ([0x70, 0x69, 0x63, 0x73, 0x2F, 0x61, 0x2E, 0x70, 0x63, 0x78] @ 0 # replicate 45 0 @
             [0xE8, 0x03, 0, 0, 0xF4, 0x01, 0, 0] @ replicate 262336 (0 :: byte)) = ''pics/a.pcx''"
    using c_string_prefix[of "[0x70, 0x69, 0x63, 0x73, 0x2F, 0x61, 0x2E, 0x70, 0x63, 0x78]" 256
        "replicate 45 0 @ [0xE8, 0x03, 0, 0, 0xF4, 0x01, 0, 0] @ replicate 262336 0"]
    by (simp add: char_of_def bit_Suc_0_iff)
  have o: "le32 ([0x70, 0x69, 0x63, 0x73, 0x2F, 0x61, 0x2E, 0x70, 0x63, 0x78] @ 0 # replicate 45 0 @
             [0xE8, 0x03, 0, 0, 0xF4, 0x01, 0, 0] @ replicate 262336 (0 :: byte)) 56 = 1000"
    and z: "le32 ([0x70, 0x69, 0x63, 0x73, 0x2F, 0x61, 0x2E, 0x70, 0x63, 0x78] @ 0 # replicate 45 0 @
             [0xE8, 0x03, 0, 0, 0xF4, 0x01, 0, 0] @ replicate 262336 (0 :: byte)) 60 = 500"
    by (simp_all add: le32_def nth_append)
  have q: "sizeof_name quake_files_h = 56" "MAX_FILES_IN_PACK quake_files_h = 4096"
    "IDPAKHEADER quake_files_h = 0x4B434150" "sizeof_dpackfile_t quake_files_h = 64"
    by (simp_all add: quake_files_h_def sizeof_dpackfile_t_def)
  have h: "ps_handle short_pak = 2" by (simp add: short_pak_def)
  have e: "c_string 256 (fread_into (ps_info0 short_pak) short_pak_bytes 12 64) = ''pics/a.pcx''"
    "le32 (fread_into (ps_info0 short_pak) short_pak_bytes 12 64) 60 = 500"
    "le32 (fread_into (ps_info0 short_pak) short_pak_bytes 12 64) 56 = 1000"
    unfolding i by (rule n, rule z, rule o)
  show ?thesis
    unfolding FS_LoadPAK_unfold[OF l] b short_pak_fields short_pak_numFiles unat_scast_64
      FS_LoadPAK_loop_one q h
    by (simp add: e)
qed


lemma cut_pak_loaded:
  "FS_LoadPAK quake_files_h ''pak0.pak'' (Some cut_pak)
     = Inr (Some \<lparr> pk_name = ''pak0.pak'', pk_numFiles = 1, pk_pak = 2,
                    pk_files = [\<lparr> pf_name = ''x'', pf_size = 9, pf_offset = 7 \<rparr>] \<rparr>)"
proof -
  have b: "ps_bytes cut_pak = [0x50, 0x41, 0x43, 0x4B, 12, 0, 0, 0, 64, 0, 0, 0]"
    by (simp add: cut_pak_def short_pak_bytes_def)
  have l: "12 \<le> length (ps_bytes cut_pak)" unfolding b by simp
  have f: "le32 [0x50, 0x41, 0x43, 0x4B, 12, 0, 0, 0, 64, 0, 0, 0] 0 = 0x4B434150"
    "le32 [0x50, 0x41, 0x43, 0x4B, 12, 0, 0, 0, 64, 0, 0, 0] 4 = 12"
    "le32 [0x50, 0x41, 0x43, 0x4B, 12, 0, 0, 0, 64, 0, 0, 0] 8 = 64"
    by (simp_all add: le32_def)
  have i: "fread_into (ps_info0 cut_pak) [0x50, 0x41, 0x43, 0x4B, 12, 0, 0, 0, 64, 0, 0, 0] 12 64
           = [0x78] @ 0 # replicate 54 0 @ [7, 0, 0, 0, 9, 0, 0, 0] @ replicate 262336 0"
    by (simp add: fread_into_def cut_pak_def)
  have n: "c_string 256 ([0x78] @ 0 # replicate 54 0 @ [7, 0, 0, 0, 9, 0, 0, 0]
                         @ replicate 262336 (0 :: byte)) = ''x''"
    using c_string_prefix[of "[0x78]" 256
        "replicate 54 0 @ [7, 0, 0, 0, 9, 0, 0, 0] @ replicate 262336 0"]
    by (simp add: char_of_def bit_Suc_0_iff)
  have o: "le32 ([0x78] @ 0 # replicate 54 0 @ [7, 0, 0, 0, 9, 0, 0, 0]
                 @ replicate 262336 (0 :: byte)) 56 = 7"
    and z: "le32 ([0x78] @ 0 # replicate 54 0 @ [7, 0, 0, 0, 9, 0, 0, 0]
                  @ replicate 262336 (0 :: byte)) 60 = 9"
    by (simp_all add: le32_def nth_append)
  have e: "c_string 256 (fread_into (ps_info0 cut_pak)
                           [0x50, 0x41, 0x43, 0x4B, 12, 0, 0, 0, 64, 0, 0, 0] 12 64) = ''x''"
    "le32 (fread_into (ps_info0 cut_pak)
             [0x50, 0x41, 0x43, 0x4B, 12, 0, 0, 0, 64, 0, 0, 0] 12 64) 60 = 9"
    "le32 (fread_into (ps_info0 cut_pak)
             [0x50, 0x41, 0x43, 0x4B, 12, 0, 0, 0, 64, 0, 0, 0] 12 64) 56 = 7"
    unfolding i by (rule n, rule z, rule o)
  have q: "sizeof_name quake_files_h = 56" "MAX_FILES_IN_PACK quake_files_h = 4096"
    "IDPAKHEADER quake_files_h = 0x4B434150" "sizeof_dpackfile_t quake_files_h = 64"
    by (simp_all add: quake_files_h_def sizeof_dpackfile_t_def)
  have h: "ps_handle cut_pak = 2" by (simp add: cut_pak_def)
  show ?thesis
    unfolding FS_LoadPAK_unfold[OF l] b f short_pak_numFiles unat_scast_64
      FS_LoadPAK_loop_one q h
    by (simp add: e)
qed

theorem FS_LoadPAK_directory_witness:
  "12 \<le> length (ps_bytes short_pak) \<and> sizeof_name quake_files_h \<le> 256
   \<and> FS_LoadPAK quake_files_h ''pak0.pak'' (Some short_pak)
       = Inr (Some \<lparr> pk_name = ''pak0.pak'', pk_numFiles = 1, pk_pak = 2,
                pk_files = [\<lparr> pf_name = ''pics/a.pcx'', pf_size = 500, pf_offset = 1000 \<rparr>] \<rparr>)
   \<and> le32 (ps_bytes short_pak) 0 = IDPAKHEADER quake_files_h
   \<and> numFiles_of quake_files_h (le32 (ps_bytes short_pak) 8) = 1
   \<and> sint (le32 (ps_bytes short_pak) 8) div int (sizeof_dpackfile_t quake_files_h) = 1
   \<and> sint (le32 (ps_bytes short_pak) 4) = 12
   \<and> 12 + (0 + 1) * sizeof_dpackfile_t quake_files_h \<le> length (ps_bytes short_pak)
   \<and> sint (le32 (ps_bytes short_pak) (12 + 0 * sizeof_dpackfile_t quake_files_h
                                      + sizeof_name quake_files_h)) = 1000
   \<and> sint (le32 (ps_bytes short_pak) (12 + 0 * sizeof_dpackfile_t quake_files_h
                                      + sizeof_name quake_files_h + 4)) = 500
   \<and> (\<exists>b \<in> set (take (sizeof_name quake_files_h) (drop 12 (ps_bytes short_pak))). b = 0)
   \<and> c_string (sizeof_name quake_files_h) (drop 12 (ps_bytes short_pak)) = ''pics/a.pcx''"
proof -
  have h1: "12 \<le> length (ps_bytes short_pak)" by (simp add: short_pak_def short_pak_fields)
  have h2: "sizeof_name quake_files_h \<le> 256" by (simp add: quake_files_h_def)
  have b: "ps_bytes short_pak = short_pak_bytes" by (simp add: short_pak_def)
  have q: "sizeof_name quake_files_h = 56" "sizeof_dpackfile_t quake_files_h = 64"
    by (simp_all add: quake_files_h_def sizeof_dpackfile_t_def)
  have d: "drop 12 short_pak_bytes
           = [0x70, 0x69, 0x63, 0x73, 0x2F, 0x61, 0x2E, 0x70, 0x63, 0x78] @ 0 # replicate 45 0 @
             [0xE8, 0x03, 0, 0, 0xF4, 0x01, 0, 0]"
  proof -
    have "(46 :: nat) = Suc 45" by simp
    then have "replicate 46 (0 :: byte) = 0 # replicate 45 0" by (simp only: replicate_Suc)
    then show ?thesis by (simp add: short_pak_bytes_def)
  qed
  have z: "\<exists>b \<in> set (take 56 (drop 12 short_pak_bytes)). b = 0"
    unfolding d by simp
  have o: "le32 short_pak_bytes 68 = 1000" "le32 short_pak_bytes 72 = 500"
    by (simp_all add: le32_def short_pak_bytes_def nth_append)
  from FS_LoadPAK_directory[OF h1 h2, of "''pak0.pak''"] short_pak_loaded z
  show ?thesis
    unfolding b q short_pak_fields
    by (simp add: o short_pak_fields)
qed

text \<open>
  C7 as stated fails. The container \<open>short_pak\<close> is 76 bytes long (a header and one
  directory record), its record names the byte range from 1000 to 1500, and \<open>FS_LoadPAK\<close>
  accepts it with that entry. The container \<open>cut_pak\<close> ends behind its header: it holds
  no directory record at all, and \<open>FS_LoadPAK\<close> accepts it with one entry, made of what
  the array \<open>info\<close> held before.
\<close>

theorem FS_LoadPAK_range_not_checked:
  "length (ps_bytes short_pak) = 76
   \<and> FS_LoadPAK quake_files_h ''pak0.pak'' (Some short_pak)
       = Inr (Some \<lparr> pk_name = ''pak0.pak'', pk_numFiles = 1, pk_pak = 2,
                pk_files = [\<lparr> pf_name = ''pics/a.pcx'', pf_size = 500, pf_offset = 1000 \<rparr>] \<rparr>)
   \<and> \<not> (1000 + 500 \<le> length (ps_bytes short_pak))
   \<and> length (ps_bytes cut_pak) = 12
   \<and> FS_LoadPAK quake_files_h ''pak0.pak'' (Some cut_pak)
       = Inr (Some \<lparr> pk_name = ''pak0.pak'', pk_numFiles = 1, pk_pak = 2,
                pk_files = [\<lparr> pf_name = ''x'', pf_size = 9, pf_offset = 7 \<rparr>] \<rparr>)"
  using short_pak_loaded cut_pak_loaded
  by (simp add: short_pak_def cut_pak_def short_pak_bytes_def)

subsection \<open>The conversion loop\<close>

lemma route_of_convert:
  assumes "nm \<noteq> ''pics/colormap.pcx''" and "\<not> ends_with nm ''.tga''"
  shows "route_of True nm =
           (if ends_with nm ''.pcx''
            then ConvertPcx (take 6 nm = ''models'' \<or> take 7 nm = ''players'')
            else if ends_with nm ''.wal'' then ConvertWal else CopyFile)"
  using assms by (simp add: route_of_def)

lemma main_loop_written:
  "main_loop convert run es written = (0, written') \<Longrightarrow>
     written' = written @ filter (\<lambda>e. writes_output (route_of convert (fe_name e))) es \<and>
     (\<forall>e \<in> set es. writes_output (route_of convert (fe_name e)) \<longrightarrow>
                     run (route_of convert (fe_name e)) e)"
proof (induction es arbitrary: written)
  case Nil
  then show ?case by simp
next
  case (Cons e es)
  show ?case
  proof (cases "writes_output (route_of convert (fe_name e))")
    case False
    with Cons.prems have "main_loop convert run es written = (0, written')"
      by (simp add: Let_def)
    from Cons.IH[OF this] False show ?thesis by simp
  next
    case True
    with Cons.prems have r: "run (route_of convert (fe_name e)) e"
      by (auto simp: Let_def split: if_splits)
    with True Cons.prems have "main_loop convert run es (written @ [e]) = (0, written')"
      by (simp add: Let_def)
    from Cons.IH[OF this] True r show ?thesis by simp
  qed
qed

text \<open>
  C8 (as the code has it). In conversion mode an entry that is not \<open>pics/colormap.pcx\<close>
  and whose name does not end in \<open>.tga\<close> takes exactly one of the three routes: the
  run-length decoder when the name ends in \<open>.pcx\<close>, the raw mip decoder when it ends in
  \<open>.wal\<close>, the copy otherwise. When the loop ends with exit code 0, the function of that
  route has returned success for every such entry of the catalog, and the entry is among
  those for which a file was written. The entry \<open>pics/colormap.pcx\<close> takes none of the
  three routes: the loop passes over it.
\<close>

theorem main_loop_routes:
  assumes "main_loop True run entries [] = (0, written)"
  shows "route_of True ''pics/colormap.pcx'' = AlreadyHandled
       \<and> (\<forall>e \<in> set entries.
            fe_name e \<noteq> ''pics/colormap.pcx'' \<and> \<not> ends_with (fe_name e) ''.tga'' \<longrightarrow>
              route_of True (fe_name e) =
                (if ends_with (fe_name e) ''.pcx''
                 then ConvertPcx (take 6 (fe_name e) = ''models'' \<or> take 7 (fe_name e) = ''players'')
                 else if ends_with (fe_name e) ''.wal'' then ConvertWal else CopyFile)
              \<and> run (route_of True (fe_name e)) e
              \<and> e \<in> set written)"
proof -
  from main_loop_written[OF assms]
  have w: "written = filter (\<lambda>e. writes_output (route_of True (fe_name e))) entries"
    and r: "\<forall>e \<in> set entries. writes_output (route_of True (fe_name e)) \<longrightarrow>
                     run (route_of True (fe_name e)) e"
    by simp_all
  have "route_of True (fe_name e) =
                (if ends_with (fe_name e) ''.pcx''
                 then ConvertPcx (take 6 (fe_name e) = ''models'' \<or> take 7 (fe_name e) = ''players'')
                 else if ends_with (fe_name e) ''.wal'' then ConvertWal else CopyFile)
              \<and> run (route_of True (fe_name e)) e
              \<and> e \<in> set written"
    if e: "e \<in> set entries" and n: "fe_name e \<noteq> ''pics/colormap.pcx''"
      "\<not> ends_with (fe_name e) ''.tga''" for e
  proof -
    note ro = route_of_convert[OF n]
    have wo: "writes_output (route_of True (fe_name e))" by (simp add: ro)
    with r e have "run (route_of True (fe_name e)) e" by blast
    moreover from wo e w have "e \<in> set written" by simp
    ultimately show ?thesis using ro by blast
  qed
  moreover have "route_of True ''pics/colormap.pcx'' = AlreadyHandled"
    by (simp add: route_of_def)
  ultimately show ?thesis by blast
qed


theorem main_loop_routes_witness:
  "main_loop True all_succeed [wal_entry] [] = (0, [wal_entry])
   \<and> route_of True (fe_name wal_entry) = ConvertWal
   \<and> all_succeed ConvertWal wal_entry"
proof -
  have m: "main_loop True all_succeed [wal_entry] [] = (0, [wal_entry])"
    by (simp add: wal_entry_def all_succeed_def route_of_def ends_with_def Let_def)
  have n: "wal_entry \<in> set [wal_entry]" "fe_name wal_entry \<noteq> ''pics/colormap.pcx''"
    "\<not> ends_with (fe_name wal_entry) ''.tga''" "ends_with (fe_name wal_entry) ''.wal''"
    "\<not> ends_with (fe_name wal_entry) ''.pcx''"
    by (simp_all add: wal_entry_def ends_with_def)
  from main_loop_routes[OF m] n show ?thesis
    using m by (simp add: all_succeed_def)
qed

text \<open>
  C8 as stated fails: for an entry whose name ends in \<open>.tga\<close> the loop only prints the
  name. The run below ends with exit code 0 and has written no file for its one entry.
\<close>

theorem main_loop_drops_tga:
  "route_of True (fe_name tga_entry) = TgaTodo
   \<and> \<not> writes_output (route_of True (fe_name tga_entry))
   \<and> main_loop True all_succeed [tga_entry] [] = (0, [])"
  by (simp add: tga_entry_def all_succeed_def route_of_def ends_with_def Let_def)

subsection \<open>The raw mip image decoder\<close>











text \<open>
  The 32768 by 16384 image below has \<open>2^29\<close> pixels and lies in an entry of
  \<open>2^29 + 100\<close> bytes: the header passes the test, the pixels are read, and
  \<open>fullsize * 4\<close> is \<open>2^31\<close>.
\<close>

lemma convertWal_rgba_size_overflows:
  "convertWal black_at_1_table large_wal_file large_wal_entry (Some large_wal_header)
     = Inl UndefinedBehaviour"
  by (simp add: convertWal_def large_wal_header_def large_wal_entry_def large_wal_file_def
      c_div_def fread1_def)

subsection \<open>The flood fill: the loop body\<close>

lemma mask_mod: "(n::nat) AND FLOODFILL_FIFO_MASK = n mod 4096"
proof -
  have "(4095::nat) = mask 12" by (simp add: mask_eq_exp_minus_1)
  then have "n AND 4095 = take_bit 12 n" by (simp add: take_bit_eq_mask)
  then show ?thesis
    by (simp add: FLOODFILL_FIFO_MASK_def FLOODFILL_FIFO_SIZE_def take_bit_eq_mod)
qed

lemma to_short_id: "0 \<le> v \<Longrightarrow> v < 32768 \<Longrightarrow> to_short v = v"
proof -
  assume a: "0 \<le> v" "v < 32768"
  have "sint (word_of_int v :: 16 word) = signed_take_bit 15 v"
    by (simp add: sint_uint uint_word_of_int_eq signed_take_bit_take_bit)
  also have "\<dots> = v" using a by (intro signed_take_bit_int_eq_self) simp_all
  finally show ?thesis by (simp add: to_short_def)
qed

lemma pix_index_bound:
  assumes "incoord w h p"
  shows "int (pix_index w p) = fst p + w * snd p" and "pix_index w p < nat (w * h)"
proof -
  from assms have x: "0 \<le> fst p" "fst p < w" and y: "0 \<le> snd p" "snd p < h"
    by (simp_all add: incoord_def)
  from x have w: "0 < w" by simp
  have nn: "0 \<le> fst p + w * snd p" using x y w by simp
  then show "int (pix_index w p) = fst p + w * snd p" by (simp add: pix_index_def)
  have "snd p + 1 \<le> h" using y by simp
  then have "w * (snd p + 1) \<le> w * h" using w by (simp add: mult_left_mono)
  then have "fst p + w * snd p < w * h" using x by (simp add: algebra_simps)
  with nn show "pix_index w p < nat (w * h)" by (simp add: pix_index_def)
qed

lemma pix_index_inj:
  assumes "incoord w h p" and "incoord w h q" and "pix_index w p = pix_index w q"
  shows "p = q"
proof -
  from assms(1,2) have b: "0 \<le> fst p" "fst p < w" "0 \<le> fst q" "fst q < w"
    "0 \<le> snd p" "0 \<le> snd q" by (simp_all add: incoord_def)
  from assms have "int (pix_index w p) = int (pix_index w q)" by simp
  then have e: "fst p + w * snd p = fst q + w * snd q"
    by (simp add: pix_index_bound(1)[OF assms(1)] pix_index_bound(1)[OF assms(2)])
  have "(fst p + w * snd p) mod w = fst p" "(fst q + w * snd q) mod w = fst q"
    using b by simp_all
  with e have fx: "fst p = fst q" by simp
  from b have "w \<noteq> 0" by auto
  with e fx have "snd p = snd q" by simp
  with fx show ?thesis by (simp add: prod_eq_iff)
qed

lemma visit_length [simp]: "length (skin (visit f w n s)) = length (skin s)"
  by (simp add: visit_def)

lemma FLOODFILL_STEP_visit:
  assumes "incoord w h (x + dx, y + dy)" and "length (skin s) = nat (w * h)"
    and "w \<le> 32768" and "h \<le> 32768" and "off = dx + w * dy"
  shows "FLOODFILL_STEP f (x + w * y) x y off dx dy s = Some (visit f w (x + dx, y + dy) s)"
proof -
  let ?n = "(x + dx, y + dy)"
  from pix_index_bound[OF assms(1)] assms(2)
  have i: "int (pix_index w ?n) = x + dx + w * (y + dy)" and lt: "pix_index w ?n < length (skin s)"
    by simp_all
  have e: "x + w * y + off = int (pix_index w ?n)" using i assms(5) by (simp add: algebra_simps)
  then have n: "nat (x + w * y + off) = pix_index w ?n" by simp
  from assms(1,3,4) have sh: "to_short (x + dx) = x + dx" "to_short (y + dy) = y + dy"
    by (simp_all add: incoord_def to_short_id)
  have rng: "\<not> (x + w * y + off < 0 \<or> int (length (skin s)) \<le> x + w * y + off)"
    using e lt by simp
  show ?thesis
    unfolding FLOODFILL_STEP_def visit_def using rng
    by (simp add: n sh mask_mod)
qed

lemma ff_body_pure:
  assumes "incoord w h (fifo s (outpt s))" and "length (skin s) = nat (w * h)"
    and "w \<le> 32768" and "h \<le> 32768"
  shows "ff_body f c w h s = Some (ff_body_pure f c w h s)"
proof -
  obtain x y where p: "fifo s (outpt s) = (x, y)" by (cases "fifo s (outpt s)")
  from assms(1) p have xy: "0 \<le> x" "x < w" "0 \<le> y" "y < h" by (simp_all add: incoord_def)
  let ?s0 = "s\<lparr> fdc := c, outpt := (outpt s + 1) mod 4096, deq := deq s + 1 \<rparr>"
  let ?s1 = "if x > 0 then visit f w (x - 1, y) ?s0 else ?s0"
  let ?s2 = "if x < w - 1 then visit f w (x + 1, y) ?s1 else ?s1"
  let ?s3 = "if y > 0 then visit f w (x, y - 1) ?s2 else ?s2"
  let ?s4 = "if y < h - 1 then visit f w (x, y + 1) ?s3 else ?s3"
  have l0: "length (skin ?s0) = nat (w * h)" using assms(2) by simp
  have l1: "length (skin ?s1) = nat (w * h)" using l0 by simp
  have l2: "length (skin ?s2) = nat (w * h)" using l1 by simp
  have l3: "length (skin ?s3) = nat (w * h)" using l2 by simp
  have l4: "length (skin ?s4) = nat (w * h)" using l3 by simp
  have st1: "(if x > 0 then FLOODFILL_STEP f (x + w * y) x y (- 1) (- 1) 0 ?s0 else Some ?s0)
             = Some ?s1"
    using FLOODFILL_STEP_visit[of w h x "- 1" y 0 ?s0 "- 1" f] xy l0 assms(3,4)
    by (simp add: incoord_def)
  have st2: "(if x < w - 1 then FLOODFILL_STEP f (x + w * y) x y 1 1 0 ?s1 else Some ?s1)
             = Some ?s2"
    using FLOODFILL_STEP_visit[of w h x 1 y 0 ?s1 1 f] xy l1 assms(3,4)
    by (simp add: incoord_def)
  have st3: "(if y > 0 then FLOODFILL_STEP f (x + w * y) x y (- w) 0 (- 1) ?s2 else Some ?s2)
             = Some ?s3"
    using FLOODFILL_STEP_visit[of w h x 0 y "- 1" ?s2 "- w" f] xy l2 assms(3,4)
    by (simp add: incoord_def)
  have st4: "(if y < h - 1 then FLOODFILL_STEP f (x + w * y) x y w 0 1 ?s3 else Some ?s3)
             = Some ?s4"
    using FLOODFILL_STEP_visit[of w h x 0 y 1 ?s3 w f] xy l3 assms(3,4)
    by (simp add: incoord_def)
  from pix_index_bound[OF assms(1)] p l4
  have pi: "int (pix_index w (x, y)) = x + w * y" "pix_index w (x, y) < length (skin ?s4)"
    by simp_all
  then have fin: "\<not> (x + w * y < 0 \<or> int (length (skin ?s4)) \<le> x + w * y)"
    and nat: "nat (x + w * y) = pix_index w (x, y)" by linarith+
  show ?thesis
    unfolding ff_body_def ff_body_pure_def Let_def p fst_conv snd_conv mask_mod
    by (simp only: st1 st2 st3 st4 Option.bind.simps fin if_False nat)
qed

subsection \<open>The flood fill: what every pass through the loop preserves\<close>

lemma count_fill_update:
  assumes "i < length sk" and "v \<noteq> f"
  shows "count_fill f (sk[i := v]) + (if sk ! i = f then 1 else 0) = count_fill f sk"
  using assms
proof (induction sk arbitrary: i)
  case Nil
  then show ?case by simp
next
  case (Cons a sk)
  show ?case
  proof (cases i)
    case 0
    with Cons.prems show ?thesis by (simp add: count_fill_def)
  next
    case (Suc j)
    with Cons.prems have "j < length sk" by simp
    from Cons.IH[OF this Cons.prems(2)] Suc show ?thesis by (simp add: count_fill_def)
  qed
qed

lemma word_of_int_fdc_ne:
  assumes "fdc_ok f v"
  shows "(word_of_int v :: byte) \<noteq> f"
proof
  assume e: "(word_of_int v :: byte) = f"
  have "uint (word_of_int v :: byte) = v mod 256" by (simp add: uint_word_of_int)
  with e have "uint f = v mod 256" by simp
  moreover from assms have "v mod 256 = v" by (simp add: fdc_ok_def)
  ultimately show False using assms by (simp add: fdc_ok_def)
qed

lemma ff_inv_fill_orig:
  assumes "ff_inv f w h sk0 s" and "i < length sk0" and "skin s ! i = f"
  shows "sk0 ! i = f"
  using assms unfolding ff_inv_def by metis

lemma visit_enq_count:
  assumes "pix_index w n < length (skin s)" and "f \<noteq> 255"
  shows "count_fill f (skin (visit f w n s)) + enq (visit f w n s)
         = count_fill f (skin s) + enq s"
proof (cases "skin s ! pix_index w n = f")
  case True
  from assms(2) have "(255::byte) \<noteq> f" by simp
  from count_fill_update[OF assms(1) this] True show ?thesis by (simp add: visit_def)
next
  case False
  then show ?thesis by (simp add: visit_def)
qed

lemma visit_frame [simp]:
  "deq (visit f w n s) = deq s" "outpt (visit f w n s) = outpt s"
  by (simp_all add: visit_def)

lemma visit_enq_mono: "enq s \<le> enq (visit f w n s)"
  by (simp add: visit_def)

lemma visit_peak_mono: "peak s \<le> peak (visit f w n s)"
  by (simp add: visit_def)

lemma visit_inv:
  assumes wf: "ff_wf f c w h sk0" and inv: "ff_inv f w h sk0 s" and n: "incoord w h n"
  shows "ff_inv f w h sk0 (visit f w n s)"
proof -
  from wf have len0: "length sk0 = nat (w * h)" by (simp add: ff_wf_def)
  from inv have len: "length (skin s) = length sk0" by (simp add: ff_inv_def)
  from pix_index_bound(2)[OF n] len0 have lt: "pix_index w n < length sk0" by simp
  show ?thesis
  proof (cases "skin s ! pix_index w n = f")
    case True
    from ff_inv_fill_orig[OF inv lt True] n have v: "ff_valid f w h sk0 n"
      by (simp add: ff_valid_def)
    have orig: "sk0 ! pix_index w n = f" using v by (simp add: ff_valid_def)
    have sk: "\<forall>i < length sk0. sk0 ! i \<noteq> f \<longrightarrow> (skin s)[pix_index w n := 255] ! i = sk0 ! i"
    proof (intro allI impI)
      fix i assume i: "i < length sk0" "sk0 ! i \<noteq> f"
      with orig have "i \<noteq> pix_index w n" by auto
      with i inv show "(skin s)[pix_index w n := 255] ! i = sk0 ! i" by (simp add: ff_inv_def)
    qed
    have slots: "ff_valid f w h sk0 (((fifo s)(inpt s := n)) j)"
      if j: "j < enq s + 1" "j < 4096" for j
    proof (cases "j = inpt s")
      case True
      with v show ?thesis by simp
    next
      case False
      have "j < enq s"
      proof (cases "enq s < 4096")
        case True
        with inv have "inpt s = enq s" by (simp add: ff_inv_def)
        with False j show ?thesis by simp
      next
        case False
        with j show ?thesis by simp
      qed
      with inv j False show ?thesis by (simp add: ff_inv_def)
    qed
    have ip: "(inpt s + 1) mod 4096 = (enq s + 1) mod 4096"
      using inv by (simp add: ff_inv_def mod_Suc_eq)
    from inv have rest: "outpt s = deq s mod 4096" "enq s < 4096 \<longrightarrow> deq s \<le> enq s"
      "fdc_ok f (fdc s)" by (simp_all add: ff_inv_def)
    have de: "enq s + 1 < 4096 \<longrightarrow> deq s \<le> enq s + 1" using rest(2) by auto
    from True len sk slots ip rest(1,3) de show ?thesis
      by (simp add: visit_def ff_inv_def)
  next
    case False
    have "uint (skin s ! pix_index w n) \<le> 255"
      using uint_lt2p[of "skin s ! pix_index w n"] by simp
    then have "fdc_ok f (uint (skin s ! pix_index w n))"
      using False by (simp add: fdc_ok_def word_uint_eq_iff)
    with False inv show ?thesis by (auto simp: visit_def ff_inv_def)
  qed
qed

lemma queue_term_decreases:
  fixes a b :: nat
  assumes "a < 4096" and "b < 4096" and "a \<noteq> b"
  shows "(a + 4096 - (b + 1) mod 4096) mod 4096 < (a + 4096 - b) mod 4096"
proof (cases "b + 1 = 4096")
  case True
  then have b: "b = 4095" by simp
  with assms have "a < 4095" by simp
  then show ?thesis using b by simp
next
  case False
  with assms have b1: "(b + 1) mod 4096 = b + 1" by simp
  show ?thesis
  proof (cases "b < a")
    case True
    then have "(a + 4096 - b) mod 4096 = a - b" using assms
      by (metis Nat.add_diff_assoc2 less_imp_le_nat mod_add_self2 mod_less less_imp_diff_less)
    moreover have "(a + 4096 - (b + 1)) mod 4096 = a - (b + 1)" using assms True
      by (metis Nat.add_diff_assoc2 Suc_eq_plus1 Suc_leI mod_add_self2 mod_less less_imp_diff_less)
    ultimately show ?thesis using True b1 by simp
  next
    case False
    with assms have ab: "a < b" by simp
    then have "(a + 4096 - b) mod 4096 = a + 4096 - b" using assms by simp
    moreover have "(a + 4096 - (b + 1)) mod 4096 = a + 4096 - (b + 1)" using assms ab by simp
    ultimately show ?thesis using ab b1 assms by simp
  qed
qed

lemma ff_body_pure_inv:
  assumes wf: "ff_wf f c w h sk0" and inv: "ff_inv f w h sk0 t" and ne: "outpt t \<noteq> inpt t"
  shows "ff_body f c w h t = Some (ff_body_pure f c w h t)"
    and "ff_inv f w h sk0 (ff_body_pure f c w h t)"
    and "ff_measure f (ff_body_pure f c w h t) < ff_measure f t"
    and "peak t \<le> peak (ff_body_pure f c w h t)"
proof -
  from wf have dims: "0 < w" "w \<le> 32768" "0 < h" "h \<le> 32768" and len0: "length sk0 = nat (w * h)"
    and c: "fdc_ok f c" and f255: "f \<noteq> 255"
    by (simp_all add: ff_wf_def fdc_ok_def)
  from inv have len: "length (skin t) = nat (w * h)" using len0 by (simp add: ff_inv_def)
  from inv have io: "inpt t = enq t mod 4096" "outpt t = deq t mod 4096"
    and de: "enq t < 4096 \<longrightarrow> deq t \<le> enq t" by (simp_all add: ff_inv_def)
  have slot: "outpt t < enq t \<and> outpt t < 4096"
  proof (cases "enq t < 4096")
    case True
    with de have "deq t \<le> enq t" by simp
    moreover from True io ne have "deq t \<noteq> enq t" by auto
    ultimately have "deq t < enq t" by simp
    with True io show ?thesis by simp
  next
    case False
    with io show ?thesis by simp
  qed
  with inv have pv: "ff_valid f w h sk0 (fifo t (outpt t))" by (simp add: ff_inv_def)
  then have pin: "incoord w h (fifo t (outpt t))" by (simp add: ff_valid_def)
  show "ff_body f c w h t = Some (ff_body_pure f c w h t)"
    by (rule ff_body_pure[OF pin len dims(2,4)])
  obtain x y where p: "fifo t (outpt t) = (x, y)" by (cases "fifo t (outpt t)")
  from pin p have xy: "0 \<le> x" "x < w" "0 \<le> y" "y < h" by (simp_all add: incoord_def)
  define s0 where "s0 = t\<lparr> fdc := c, outpt := (outpt t + 1) mod 4096, deq := deq t + 1 \<rparr>"
  define s1 where "s1 = (if x > 0 then visit f w (x - 1, y) s0 else s0)"
  define s2 where "s2 = (if x < w - 1 then visit f w (x + 1, y) s1 else s1)"
  define s3 where "s3 = (if y > 0 then visit f w (x, y - 1) s2 else s2)"
  define s4 where "s4 = (if y < h - 1 then visit f w (x, y + 1) s3 else s3)"
  have body: "ff_body_pure f c w h t
              = s4\<lparr> skin := (skin s4)[pix_index w (x, y) := word_of_int (fdc s4)] \<rparr>"
    by (simp add: ff_body_pure_def Let_def p s0_def s1_def s2_def s3_def s4_def)
  have i0: "ff_inv f w h sk0 s0"
  proof -
    have "(outpt t + 1) mod 4096 = (deq t + 1) mod 4096" using io by (simp add: mod_Suc_eq)
    moreover have "enq t < 4096 \<longrightarrow> deq t + 1 \<le> enq t"
    proof
      assume "enq t < 4096"
      with slot io show "deq t + 1 \<le> enq t" using de by simp
    qed
    ultimately show ?thesis using inv c by (simp add: s0_def ff_inv_def)
  qed
  have i1: "ff_inv f w h sk0 s1"
    unfolding s1_def using i0 xy by (auto intro!: visit_inv[OF wf] simp: incoord_def)
  have i2: "ff_inv f w h sk0 s2"
    unfolding s2_def using i1 xy by (auto intro!: visit_inv[OF wf] simp: incoord_def)
  have i3: "ff_inv f w h sk0 s3"
    unfolding s3_def using i2 xy by (auto intro!: visit_inv[OF wf] simp: incoord_def)
  have i4: "ff_inv f w h sk0 s4"
    unfolding s4_def using i3 xy by (auto intro!: visit_inv[OF wf] simp: incoord_def)
  have l: "length (skin s0) = nat (w * h)" "length (skin s1) = nat (w * h)"
    "length (skin s2) = nat (w * h)" "length (skin s3) = nat (w * h)"
    "length (skin s4) = nat (w * h)"
    using i0 i1 i2 i3 i4 len0 by (simp_all add: ff_inv_def)
  have ne4: "(word_of_int (fdc s4) :: byte) \<noteq> f"
    using i4 by (intro word_of_int_fdc_ne) (simp add: ff_inv_def)
  from pv p have orig: "sk0 ! pix_index w (x, y) = f" by (simp add: ff_valid_def)
  from pix_index_bound(2)[OF pin] p have plt: "pix_index w (x, y) < nat (w * h)" by simp
  show "ff_inv f w h sk0 (ff_body_pure f c w h t)"
  proof -
    have "\<forall>i < length sk0. sk0 ! i \<noteq> f \<longrightarrow>
            (skin s4)[pix_index w (x, y) := word_of_int (fdc s4)] ! i = sk0 ! i"
    proof (intro allI impI)
      fix i assume i: "i < length sk0" "sk0 ! i \<noteq> f"
      with orig have "i \<noteq> pix_index w (x, y)" by auto
      with i i4 show "(skin s4)[pix_index w (x, y) := word_of_int (fdc s4)] ! i = sk0 ! i"
        by (simp add: ff_inv_def)
    qed
    with i4 show ?thesis by (simp add: body ff_inv_def)
  qed
  have nb: "\<And>s n. incoord w h n \<Longrightarrow> length (skin s) = nat (w * h) \<Longrightarrow>
      count_fill f (skin (visit f w n s)) + enq (visit f w n s) = count_fill f (skin s) + enq s"
    using pix_index_bound(2) visit_enq_count f255 by simp
  have c1: "count_fill f (skin s1) + enq s1 = count_fill f (skin s0) + enq s0"
    unfolding s1_def using xy l by (auto intro!: nb simp: incoord_def)
  have c2: "count_fill f (skin s2) + enq s2 = count_fill f (skin s1) + enq s1"
    unfolding s2_def using xy l by (auto intro!: nb simp: incoord_def)
  have c3: "count_fill f (skin s3) + enq s3 = count_fill f (skin s2) + enq s2"
    unfolding s3_def using xy l by (auto intro!: nb simp: incoord_def)
  have c4: "count_fill f (skin s4) + enq s4 = count_fill f (skin s3) + enq s3"
    unfolding s4_def using xy l by (auto intro!: nb simp: incoord_def)
  have m1: "enq s0 \<le> enq s1" "peak s0 \<le> peak s1"
    unfolding s1_def by (simp_all add: visit_enq_mono visit_peak_mono)
  have m2: "enq s1 \<le> enq s2" "peak s1 \<le> peak s2"
    unfolding s2_def by (simp_all add: visit_enq_mono visit_peak_mono)
  have m3: "enq s2 \<le> enq s3" "peak s2 \<le> peak s3"
    unfolding s3_def by (simp_all add: visit_enq_mono visit_peak_mono)
  have m4: "enq s3 \<le> enq s4" "peak s3 \<le> peak s4"
    unfolding s4_def by (simp_all add: visit_enq_mono visit_peak_mono)
  show "peak t \<le> peak (ff_body_pure f c w h t)"
    using m1 m2 m3 m4 by (simp add: body s0_def)
  have total: "count_fill f (skin s4) + enq s4 = count_fill f (skin t) + enq t"
    using c1 c2 c3 c4 by (simp add: s0_def)
  have emono: "enq t \<le> enq s4" using m1 m2 m3 m4 by (simp add: s0_def)
  have fin: "count_fill f ((skin s4)[pix_index w (x, y) := word_of_int (fdc s4)])
             \<le> count_fill f (skin s4)"
    using count_fill_update[of "pix_index w (x, y)" "skin s4" "word_of_int (fdc s4)" f] ne4 plt l
    by simp
  have o4: "outpt s4 = (outpt t + 1) mod 4096"
    by (simp add: s4_def s3_def s2_def s1_def s0_def)
  have in4: "inpt s4 = enq s4 mod 4096" using i4 by (simp add: ff_inv_def)
  show "ff_measure f (ff_body_pure f c w h t) < ff_measure f t"
  proof (cases "enq s4 = enq t")
    case True
    with total have "count_fill f (skin s4) = count_fill f (skin t)" by simp
    with fin have cle: "count_fill f ((skin s4)[pix_index w (x, y) := word_of_int (fdc s4)])
                        \<le> count_fill f (skin t)" by simp
    from True in4 io have "inpt s4 = inpt t" by simp
    moreover have "inpt t < 4096" "outpt t < 4096" using io by simp_all
    ultimately have "(inpt s4 + 4096 - outpt s4) mod 4096 < (inpt t + 4096 - outpt t) mod 4096"
      using queue_term_decreases[of "inpt t" "outpt t"] ne o4 by simp
    with cle show ?thesis
      by (simp add: ff_measure_def body add_le_less_mono)
  next
    case False
    with emono have "enq t < enq s4" by simp
    with total have "count_fill f (skin s4) < count_fill f (skin t)" by simp
    with fin have "count_fill f ((skin s4)[pix_index w (x, y) := word_of_int (fdc s4)]) + 1
                   \<le> count_fill f (skin t)" by simp
    then have "(count_fill f ((skin s4)[pix_index w (x, y) := word_of_int (fdc s4)]) + 1) * 4096
                   \<le> count_fill f (skin t) * 4096" by (rule mult_le_mono1)
    moreover have "(inpt s4 + 4096 - outpt s4) mod 4096 < 4096" by simp
    ultimately show ?thesis by (simp add: ff_measure_def body)
  qed
qed

subsection \<open>The flood fill: the loop ends\<close>

lemma ff_loop_rule:
  assumes wf: "ff_wf f c w h sk0"
    and step: "\<And>t. ff_inv f w h sk0 t \<Longrightarrow> I t \<Longrightarrow> outpt t \<noteq> inpt t \<Longrightarrow>
                 I (ff_body_pure f c w h t)"
  shows "ff_inv f w h sk0 s \<Longrightarrow> I s \<Longrightarrow>
         \<exists>s'. ff_loop f c w h s = Some s' \<and> ff_inv f w h sk0 s' \<and> I s' \<and> outpt s' = inpt s'"
proof (induction "ff_measure f s" arbitrary: s rule: less_induct)
  case less
  show ?case
  proof (cases "outpt s = inpt s")
    case True
    with less.prems show ?thesis by (subst ff_loop.simps) simp
  next
    case False
    let ?t = "ff_body_pure f c w h s"
    note b = ff_body_pure_inv[OF wf less.prems(1) False]
    from step[OF less.prems False] have It: "I ?t" .
    from less.hyps[OF b(3) b(2) It] obtain s' where
      s': "ff_loop f c w h ?t = Some s'" "ff_inv f w h sk0 s'" "I s'" "outpt s' = inpt s'"
      by blast
    have "ff_loop f c w h s = ff_loop f c w h ?t"
      using False b(1) by (subst ff_loop.simps) simp
    with s' show ?thesis by simp
  qed
qed

lemma find_filledcolor_range: "0 \<le> find_filledcolor tbl i \<and> find_filledcolor tbl i \<le> 255"
proof (induction tbl i rule: find_filledcolor.induct)
  case (1 tbl i)
  show ?case
  proof (cases "i < 256")
    case False
    then show ?thesis by (subst (1 2) find_filledcolor.simps) simp
  next
    case True
    show ?thesis
    proof (cases "tbl ! i = 255")
      case t: True
      with True show ?thesis by (subst (1 2) find_filledcolor.simps) simp
    next
      case False
      with True "1.IH" show ?thesis by (subst (1 2) find_filledcolor.simps) simp
    qed
  qed
qed


lemma FloodFillSkin_run_loop:
  assumes "sk0 \<noteq> []" and "uint (sk0 ! 0) \<noteq> find_filledcolor tbl 0" and "sk0 ! 0 \<noteq> 255"
  shows "FloodFillSkin_run tbl g sk0 w h
         = ff_loop (sk0 ! 0) (find_filledcolor tbl 0) w h (ff_init g sk0 (find_filledcolor tbl 0))"
proof -
  from assms(1) obtain f rest where sk: "sk0 = f # rest" by (cases sk0) simp_all
  have "(0 + 1) AND FLOODFILL_FIFO_MASK = (1::nat)" by (simp add: mask_mod)
  with assms(2,3) show ?thesis
    by (simp add: FloodFillSkin_run_def sk Let_def ff_init_def)
qed

lemma ff_init_inv:
  assumes "ff_wf f c w h sk0" and "sk0 ! 0 = f"
  shows "ff_inv f w h sk0 (ff_init g sk0 c)"
proof -
  from assms(1) have "0 < w" "0 < h" by (simp_all add: ff_wf_def)
  then have "ff_valid f w h sk0 (0, 0)"
    using assms(2) by (simp add: ff_valid_def incoord_def pix_index_def)
  with assms(1) show ?thesis
    by (simp add: ff_inv_def ff_init_def fdc_ok_def ff_wf_def)
qed

text \<open>
  The queue cannot hold more coordinates than the image has pixels of the fill colour:
  every store but the first turns one of them into 255.
\<close>

lemma visit_peak_count:
  assumes "pix_index w n < length (skin s)" and "f \<noteq> 255"
    and "enq s + count_fill f (skin s) \<le> k + 1" and "peak s \<le> k" and "1 \<le> deq s"
  shows "enq (visit f w n s) + count_fill f (skin (visit f w n s)) \<le> k + 1 \<and>
         peak (visit f w n s) \<le> k"
proof -
  from visit_enq_count[OF assms(1,2)] assms(3)
  have a: "enq (visit f w n s) + count_fill f (skin (visit f w n s)) \<le> k + 1" by simp
  have "peak (visit f w n s) \<le> max (peak s) (enq (visit f w n s) - deq s)"
    by (simp add: visit_def)
  also have "\<dots> \<le> k" using a assms(4,5) by simp
  finally show ?thesis using a by simp
qed

lemma ff_body_pure_peak_count:
  assumes wf: "ff_wf f c w h sk0" and inv: "ff_inv f w h sk0 t" and ne: "outpt t \<noteq> inpt t"
    and cnt: "enq t + count_fill f (skin t) \<le> k + 1" and pk: "peak t \<le> k"
  shows "enq (ff_body_pure f c w h t) + count_fill f (skin (ff_body_pure f c w h t)) \<le> k + 1 \<and>
         peak (ff_body_pure f c w h t) \<le> k"
proof -
  from wf have len0: "length sk0 = nat (w * h)" and f255: "f \<noteq> 255"
    by (simp_all add: ff_wf_def)
  from inv have len: "length (skin t) = nat (w * h)" using len0 by (simp add: ff_inv_def)
  from inv have io: "inpt t = enq t mod 4096" "outpt t = deq t mod 4096"
    and de: "enq t < 4096 \<longrightarrow> deq t \<le> enq t" by (simp_all add: ff_inv_def)
  have slot: "outpt t < enq t \<and> outpt t < 4096"
  proof (cases "enq t < 4096")
    case True
    with de have "deq t \<le> enq t" by simp
    moreover from True io ne have "deq t \<noteq> enq t" by auto
    ultimately have "deq t < enq t" by simp
    with True io show ?thesis by simp
  next
    case False
    with io show ?thesis by simp
  qed
  with inv have pv: "ff_valid f w h sk0 (fifo t (outpt t))" by (simp add: ff_inv_def)
  then have pin: "incoord w h (fifo t (outpt t))" by (simp add: ff_valid_def)
  obtain x y where p: "fifo t (outpt t) = (x, y)" by (cases "fifo t (outpt t)")
  from pin p have xy: "0 \<le> x" "x < w" "0 \<le> y" "y < h" by (simp_all add: incoord_def)
  define s0 where "s0 = t\<lparr> fdc := c, outpt := (outpt t + 1) mod 4096, deq := deq t + 1 \<rparr>"
  define s1 where "s1 = (if x > 0 then visit f w (x - 1, y) s0 else s0)"
  define s2 where "s2 = (if x < w - 1 then visit f w (x + 1, y) s1 else s1)"
  define s3 where "s3 = (if y > 0 then visit f w (x, y - 1) s2 else s2)"
  define s4 where "s4 = (if y < h - 1 then visit f w (x, y + 1) s3 else s3)"
  have body: "ff_body_pure f c w h t
              = s4\<lparr> skin := (skin s4)[pix_index w (x, y) := word_of_int (fdc s4)] \<rparr>"
    by (simp add: ff_body_pure_def Let_def p s0_def s1_def s2_def s3_def s4_def)
  define P where "P = (\<lambda>s :: ff_state. (enq s + count_fill f (skin s) \<le> k + 1 \<and> peak s \<le> k)
               \<and> 1 \<le> deq s \<and> length (skin s) = nat (w * h))"
  have nb: "P (visit f w n s)" if "incoord w h n" "P s" for n s
    using visit_peak_count[of w n s f k] pix_index_bound(2)[OF that(1)] that(2) f255
    by (simp add: P_def)
  have p0: "P s0" using cnt pk len by (simp add: s0_def P_def)
  have p1: "P s1" unfolding s1_def using p0 xy by (auto intro!: nb simp: incoord_def)
  have p2: "P s2" unfolding s2_def using p1 xy by (auto intro!: nb simp: incoord_def)
  have p3: "P s3" unfolding s3_def using p2 xy by (auto intro!: nb simp: incoord_def)
  have p4': "P s4" unfolding s4_def using p3 xy by (auto intro!: nb simp: incoord_def)
  note p4 = p4'[unfolded P_def]
  have i4: "ff_inv f w h sk0 s4"
  proof -
    have i0: "ff_inv f w h sk0 s0"
    proof -
      have "(outpt t + 1) mod 4096 = (deq t + 1) mod 4096" using io by (simp add: mod_Suc_eq)
      moreover have "enq t < 4096 \<longrightarrow> deq t + 1 \<le> enq t"
      proof
        assume "enq t < 4096"
        with slot io show "deq t + 1 \<le> enq t" using de by simp
      qed
      moreover have "fdc_ok f c" using wf by (simp add: ff_wf_def fdc_ok_def)
      ultimately show ?thesis using inv by (simp add: s0_def ff_inv_def)
    qed
    have i1: "ff_inv f w h sk0 s1"
      unfolding s1_def using i0 xy by (auto intro!: visit_inv[OF wf] simp: incoord_def)
    have i2: "ff_inv f w h sk0 s2"
      unfolding s2_def using i1 xy by (auto intro!: visit_inv[OF wf] simp: incoord_def)
    have i3: "ff_inv f w h sk0 s3"
      unfolding s3_def using i2 xy by (auto intro!: visit_inv[OF wf] simp: incoord_def)
    show ?thesis
      unfolding s4_def using i3 xy by (auto intro!: visit_inv[OF wf] simp: incoord_def)
  qed
  have ne4: "(word_of_int (fdc s4) :: byte) \<noteq> f"
    using i4 by (intro word_of_int_fdc_ne) (simp add: ff_inv_def)
  from pix_index_bound(2)[OF pin] p have plt: "pix_index w (x, y) < nat (w * h)" by simp
  have fin: "count_fill f ((skin s4)[pix_index w (x, y) := word_of_int (fdc s4)])
             \<le> count_fill f (skin s4)"
    using count_fill_update[of "pix_index w (x, y)" "skin s4" "word_of_int (fdc s4)" f] ne4 plt p4
    by simp
  with p4 show ?thesis by (simp add: body)
qed

subsection \<open>The flood fill: what it reaches while the queue does not overflow\<close>

lemma mod_4096_neq:
  fixes j e :: nat
  assumes "j < e" and "e - j < 4096"
  shows "j mod 4096 \<noteq> e mod 4096"
proof
  assume eq: "j mod 4096 = e mod 4096"
  have "(e - j) mod 4096 = 0"
    using assms(1) eq by (metis less_imp_le_nat mod_eq_dvd_iff_nat dvd_imp_mod_0)
  with assms show False by simp
qed

lemma pend_enqueue:
  assumes "deq s \<le> enq s" and "enq s - deq s < 4096"
  shows "{((fifo s)(enq s mod 4096 := n)) (j mod 4096) | j. deq s \<le> j \<and> j < enq s + 1}
         = insert n (pend s)"
proof -
  have old: "((fifo s)(enq s mod 4096 := n)) (j mod 4096) = fifo s (j mod 4096)"
    if "deq s \<le> j" "j < enq s" for j
  proof -
    from that assms have "j mod 4096 \<noteq> enq s mod 4096" by (intro mod_4096_neq) simp_all
    then show ?thesis by simp
  qed
  show ?thesis
  proof (intro set_eqI iffI)
    fix p assume "p \<in> {((fifo s)(enq s mod 4096 := n)) (j mod 4096) | j. deq s \<le> j \<and> j < enq s + 1}"
    then obtain j where j: "p = ((fifo s)(enq s mod 4096 := n)) (j mod 4096)" "deq s \<le> j" "j < enq s + 1"
      by blast
    show "p \<in> insert n (pend s)"
    proof (cases "j = enq s")
      case True
      with j show ?thesis by simp
    next
      case False
      with j have "j < enq s" by simp
      with j old[of j] show ?thesis by (auto simp: pend_def)
    qed
  next
    fix p assume "p \<in> insert n (pend s)"
    then consider "p = n" | "p \<in> pend s" by blast
    then show "p \<in> {((fifo s)(enq s mod 4096 := n)) (j mod 4096) | j. deq s \<le> j \<and> j < enq s + 1}"
    proof cases
      case 1
      have "n = ((fifo s)(enq s mod 4096 := n)) (enq s mod 4096)" by simp
      with 1 assms(1) show ?thesis by (intro CollectI exI[of _ "enq s"]) simp
    next
      case 2
      then obtain j where j: "p = fifo s (j mod 4096)" "deq s \<le> j" "j < enq s"
        by (auto simp: pend_def)
      with old[of j] show ?thesis by (intro CollectI exI[of _ j]) simp
    qed
  qed
qed

lemma visit_nonfill_kept:
  assumes "skin s ! i \<noteq> f" and "f \<noteq> 255"
  shows "skin (visit f w n s) ! i \<noteq> f"
proof (cases "i = pix_index w n")
  case True
  with assms show ?thesis by (simp add: visit_def)
next
  case False
  with assms show ?thesis by (simp add: visit_def)
qed

lemma visit_marks:
  assumes "pix_index w n < length (skin s)" and "f \<noteq> 255"
  shows "skin (visit f w n s) ! pix_index w n \<noteq> f"
  using assms by (simp add: visit_def)

lemma visit_bfs:
  assumes wf: "ff_wf f c w h sk0" and inv: "ff_inv f w h sk0 s" and n: "incoord w h n"
    and b: "bfs_inv f w h sk0 cur s" and pk: "peak (visit f w n s) \<le> 4095"
  shows "bfs_inv f w h sk0 cur (visit f w n s)"
proof -
  from wf have len0: "length sk0 = nat (w * h)" and f255: "f \<noteq> 255" by (simp_all add: ff_wf_def)
  from inv have len: "length (skin s) = length sk0" and ip: "inpt s = enq s mod 4096"
    by (simp_all add: ff_inv_def)
  from pix_index_bound(2)[OF n] len0 have lt: "pix_index w n < length sk0" by simp
  from b have b1: "deq s \<le> enq s" "enq s \<le> deq s + peak s" "fdc s \<noteq> 255"
    and b2: "\<And>p. ff_valid f w h sk0 p \<Longrightarrow> skin s ! pix_index w p = 255 \<Longrightarrow>
                 p \<in> pend s \<or> Some p = cur"
    and b3: "\<And>p q. ff_valid f w h sk0 p \<Longrightarrow> skin s ! pix_index w p \<noteq> f \<Longrightarrow> p \<notin> pend s \<Longrightarrow>
            Some p \<noteq> cur \<Longrightarrow> adjacent p q \<Longrightarrow> ff_valid f w h sk0 q
              \<Longrightarrow> skin s ! pix_index w q \<noteq> f"
    and b4: "skin s ! 0 \<noteq> f \<or> (0, 0) \<in> pend s \<or> cur = Some (0, 0)"
    unfolding bfs_inv_def by blast+
  show ?thesis
  proof (cases "skin s ! pix_index w n = f")
    case True
    let ?s' = "visit f w n s"
    from True have pk': "peak ?s' = max (peak s) (enq s + 1 - deq s)" by (simp add: visit_def)
    with pk have pks: "peak s \<le> 4095" and "enq s + 1 - deq s \<le> 4095" by simp_all
    then have room: "enq s - deq s < 4096" by linarith
    have sk': "skin ?s' = (skin s)[pix_index w n := 255]" using True by (simp add: visit_def)
    have ed: "enq ?s' = enq s + 1" "deq ?s' = deq s" "fdc ?s' = fdc s"
      using True by (simp_all add: visit_def)
    have "pend ?s' = {((fifo s)(enq s mod 4096 := n)) (j mod 4096) | j. deq s \<le> j \<and> j < enq s + 1}"
      using True ip by (simp add: pend_def visit_def)
    then have pe: "pend ?s' = insert n (pend s)"
      using pend_enqueue[OF b1(1) room] by simp
    from ff_inv_fill_orig[OF inv lt True] n have nv: "ff_valid f w h sk0 n"
      by (simp add: ff_valid_def)
    have idx: "pix_index w p = pix_index w n \<longleftrightarrow> p = n" if "ff_valid f w h sk0 p" for p
      using that n pix_index_inj[of w h p n] by (auto simp: ff_valid_def)
    have c2: "p \<in> pend ?s' \<or> Some p = cur"
      if "ff_valid f w h sk0 p" "skin ?s' ! pix_index w p = 255" for p
    proof (cases "p = n")
      case True
      then show ?thesis by (simp add: pe)
    next
      case False
      with that idx[OF that(1)] have "skin s ! pix_index w p = 255" by (simp add: sk')
      from b2[OF that(1) this] show ?thesis by (auto simp: pe)
    qed
    have c3: "skin ?s' ! pix_index w q \<noteq> f"
      if "ff_valid f w h sk0 p" "skin ?s' ! pix_index w p \<noteq> f" "p \<notin> pend ?s'"
        "Some p \<noteq> cur" "adjacent p q" "ff_valid f w h sk0 q" for p q
    proof -
      from that(3) have pn: "p \<noteq> n" "p \<notin> pend s" by (simp_all add: pe)
      with that(2) idx[OF that(1)] have "skin s ! pix_index w p \<noteq> f" by (simp add: sk')
      from b3[OF that(1) this pn(2) that(4,5,6)] have "skin s ! pix_index w q \<noteq> f" .
      then show ?thesis by (rule visit_nonfill_kept[OF _ f255])
    qed
    have c4: "skin ?s' ! 0 \<noteq> f \<or> (0, 0) \<in> pend ?s' \<or> cur = Some (0, 0)"
      using b4 visit_nonfill_kept[OF _ f255, of s 0 w n] by (auto simp: pe)
    have c1: "deq ?s' \<le> enq ?s'" "enq ?s' \<le> deq ?s' + peak ?s'" "fdc ?s' \<noteq> 255"
      using b1 by (simp_all add: ed pk')
    show ?thesis
      unfolding bfs_inv_def using c1 pk c2 c3 c4 by blast
  next
    case False
    let ?s' = "visit f w n s"
    have same: "skin ?s' = skin s" "enq ?s' = enq s" "deq ?s' = deq s" "peak ?s' = peak s"
      "pend ?s' = pend s"
      using False by (simp_all add: visit_def pend_def)
    have "fdc ?s' \<noteq> 255"
    proof (cases "skin s ! pix_index w n = 255")
      case True
      with False b1(3) show ?thesis by (simp add: visit_def)
    next
      case ne: False
      then have "uint (skin s ! pix_index w n) \<noteq> 255" by (simp add: word_uint_eq_iff)
      with False ne show ?thesis by (simp add: visit_def)
    qed
    with b pk show ?thesis unfolding bfs_inv_def same by blast
  qed
qed

lemma adjacent_cases:
  assumes "adjacent (x, y) q"
  shows "q = (x - 1, y) \<or> q = (x + 1, y) \<or> q = (x, y - 1) \<or> q = (x, y + 1)"
proof -
  obtain a b where q: "q = (a, b)" by (cases q)
  from assms q have "\<bar>x - a\<bar> + \<bar>y - b\<bar> = 1" by (simp add: adjacent_def)
  then have "(a = x - 1 \<and> b = y) \<or> (a = x + 1 \<and> b = y) \<or> (a = x \<and> b = y - 1) \<or> (a = x \<and> b = y + 1)"
    by arith
  with q show ?thesis by simp
qed

lemma visit_if_kept:
  assumes "skin s ! i \<noteq> f" and "f \<noteq> 255"
  shows "skin (if b then visit f w n s else s) ! i \<noteq> f"
  using assms visit_nonfill_kept by simp

lemma word_of_int_fdc_ne_255:
  assumes "fdc_ok f v" and "v \<noteq> 255"
  shows "(word_of_int v :: byte) \<noteq> 255"
proof
  assume e: "(word_of_int v :: byte) = 255"
  have "uint (word_of_int v :: byte) = v mod 256" by (simp add: uint_word_of_int)
  with e have "v mod 256 = 255" by simp
  moreover from assms have "v mod 256 = v" by (simp add: fdc_ok_def)
  ultimately show False using assms by simp
qed

lemma bfs_invD:
  assumes "bfs_inv f w h sk0 cur s"
  shows "deq s \<le> enq s" and "enq s \<le> deq s + peak s" and "peak s \<le> 4095" and "fdc s \<noteq> 255"
    and "\<And>p. ff_valid f w h sk0 p \<Longrightarrow> skin s ! pix_index w p = 255 \<Longrightarrow>
              p \<in> pend s \<or> Some p = cur"
    and "\<And>p q. ff_valid f w h sk0 p \<Longrightarrow> skin s ! pix_index w p \<noteq> f \<Longrightarrow> p \<notin> pend s \<Longrightarrow>
            Some p \<noteq> cur \<Longrightarrow> adjacent p q \<Longrightarrow> ff_valid f w h sk0 q
              \<Longrightarrow> skin s ! pix_index w q \<noteq> f"
    and "skin s ! 0 \<noteq> f \<or> (0, 0) \<in> pend s \<or> cur = Some (0, 0)"
  using assms unfolding bfs_inv_def by blast+

lemma ff_body_pure_bfs:
  assumes wf: "ff_wf f c w h sk0" and inv: "ff_inv f w h sk0 t" and ne: "outpt t \<noteq> inpt t"
    and c255: "c \<noteq> 255" and b: "bfs_inv f w h sk0 None t"
    and pk: "peak (ff_body_pure f c w h t) \<le> 4095"
  shows "bfs_inv f w h sk0 None (ff_body_pure f c w h t)"
proof -
  from wf have dims: "0 < w" "0 < h" and len0: "length sk0 = nat (w * h)"
    and cok: "fdc_ok f c" and f255: "f \<noteq> 255"
    by (simp_all add: ff_wf_def fdc_ok_def)
  from inv have len: "length (skin t) = nat (w * h)" using len0 by (simp add: ff_inv_def)
  from inv have io: "inpt t = enq t mod 4096" "outpt t = deq t mod 4096"
    and de: "enq t < 4096 \<longrightarrow> deq t \<le> enq t" by (simp_all add: ff_inv_def)
  note bD = bfs_invD[OF b]
  have b1: "deq t \<le> enq t" "enq t \<le> deq t + peak t" "peak t \<le> 4095"
    using bD(1-3) .
  have b2: "p \<in> pend t" if "ff_valid f w h sk0 p" "skin t ! pix_index w p = 255" for p
    using bD(5)[OF that] by simp
  have b3: "skin t ! pix_index w q \<noteq> f"
    if "ff_valid f w h sk0 p" "skin t ! pix_index w p \<noteq> f" "p \<notin> pend t"
       "adjacent p q" "ff_valid f w h sk0 q" for p q
    using bD(6)[OF that(1,2,3) _ that(4,5)] by simp
  have b4: "skin t ! 0 \<noteq> f \<or> (0, 0) \<in> pend t" using bD(7) by simp
  from b1(1) ne io have dlt: "deq t < enq t" by (cases "deq t = enq t") simp_all
  have slot: "outpt t < enq t \<and> outpt t < 4096"
  proof (cases "enq t < 4096")
    case True
    with dlt io show ?thesis by simp
  next
    case False
    with io show ?thesis by simp
  qed
  with inv have pv: "ff_valid f w h sk0 (fifo t (outpt t))" by (simp add: ff_inv_def)
  then have pin: "incoord w h (fifo t (outpt t))" by (simp add: ff_valid_def)
  obtain x y where p: "fifo t (outpt t) = (x, y)" by (cases "fifo t (outpt t)")
  from pin p have xy: "0 \<le> x" "x < w" "0 \<le> y" "y < h" by (simp_all add: incoord_def)
  from pv p have pv': "ff_valid f w h sk0 (x, y)" by simp
  define s0 where "s0 = t\<lparr> fdc := c, outpt := (outpt t + 1) mod 4096, deq := deq t + 1 \<rparr>"
  define s1 where "s1 = (if x > 0 then visit f w (x - 1, y) s0 else s0)"
  define s2 where "s2 = (if x < w - 1 then visit f w (x + 1, y) s1 else s1)"
  define s3 where "s3 = (if y > 0 then visit f w (x, y - 1) s2 else s2)"
  define s4 where "s4 = (if y < h - 1 then visit f w (x, y + 1) s3 else s3)"
  define s5 where "s5 = s4\<lparr> skin := (skin s4)[pix_index w (x, y) := word_of_int (fdc s4)] \<rparr>"
  have body: "ff_body_pure f c w h t = s5"
    by (simp add: ff_body_pure_def Let_def p s0_def s1_def s2_def s3_def s4_def s5_def)
  have i0: "ff_inv f w h sk0 s0"
  proof -
    have "(outpt t + 1) mod 4096 = (deq t + 1) mod 4096" using io by (simp add: mod_Suc_eq)
    moreover have "enq t < 4096 \<longrightarrow> deq t + 1 \<le> enq t" using dlt by simp
    ultimately show ?thesis using inv cok by (simp add: s0_def ff_inv_def)
  qed
  have i1: "ff_inv f w h sk0 s1"
    unfolding s1_def using i0 xy by (auto intro!: visit_inv[OF wf] simp: incoord_def)
  have i2: "ff_inv f w h sk0 s2"
    unfolding s2_def using i1 xy by (auto intro!: visit_inv[OF wf] simp: incoord_def)
  have i3: "ff_inv f w h sk0 s3"
    unfolding s3_def using i2 xy by (auto intro!: visit_inv[OF wf] simp: incoord_def)
  have i4: "ff_inv f w h sk0 s4"
    unfolding s4_def using i3 xy by (auto intro!: visit_inv[OF wf] simp: incoord_def)
  have l: "length (skin s0) = nat (w * h)" "length (skin s1) = nat (w * h)"
    "length (skin s2) = nat (w * h)" "length (skin s3) = nat (w * h)"
    "length (skin s4) = nat (w * h)"
    using i0 i1 i2 i3 i4 len0 by (simp_all add: ff_inv_def)
  have pm: "peak s0 \<le> peak s1" "peak s1 \<le> peak s2" "peak s2 \<le> peak s3" "peak s3 \<le> peak s4"
    unfolding s1_def s2_def s3_def s4_def by (simp_all add: visit_peak_mono)
  have p5: "peak s5 = peak s4" by (simp add: s5_def)
  from pk body p5 pm have pks: "peak s1 \<le> 4095" "peak s2 \<le> 4095" "peak s3 \<le> 4095"
    "peak s4 \<le> 4095" by simp_all
  have pend_t: "pend t = insert (x, y) (pend s0)"
  proof (intro set_eqI iffI)
    fix q assume "q \<in> pend t"
    then obtain j where j: "q = fifo t (j mod 4096)" "deq t \<le> j" "j < enq t"
      by (auto simp: pend_def)
    show "q \<in> insert (x, y) (pend s0)"
    proof (cases "j = deq t")
      case True
      with j io p show ?thesis by simp
    next
      case False
      with j have "deq t + 1 \<le> j" by simp
      with j show ?thesis by (auto simp: pend_def s0_def)
    qed
  next
    fix q assume "q \<in> insert (x, y) (pend s0)"
    then consider "q = (x, y)" | "q \<in> pend s0" by blast
    then show "q \<in> pend t"
    proof cases
      case 1
      with p io dlt show ?thesis by (auto simp: pend_def intro!: exI[of _ "deq t"])
    next
      case 2
      then obtain j where "q = fifo t (j mod 4096)" "deq t + 1 \<le> j" "j < enq t"
        by (auto simp: pend_def s0_def)
      then show ?thesis by (auto simp: pend_def intro!: exI[of _ j])
    qed
  qed
  have sk0eq: "skin s0 = skin t" by (simp add: s0_def)
  have B0: "bfs_inv f w h sk0 (Some (x, y)) s0"
    unfolding bfs_inv_def
  proof (intro conjI allI impI)
    show "deq s0 \<le> enq s0" using dlt by (simp add: s0_def)
    show "enq s0 \<le> deq s0 + peak s0" using b1(2) by (simp add: s0_def)
    show "peak s0 \<le> 4095" using b1(3) by (simp add: s0_def)
    show "fdc s0 \<noteq> 255" using c255 by (simp add: s0_def)
    show "skin s0 ! 0 \<noteq> f \<or> (0, 0) \<in> pend s0 \<or> Some (x, y) = Some (0, 0)"
      using b4 pend_t sk0eq by auto
  next
    fix q assume "ff_valid f w h sk0 q \<and> skin s0 ! pix_index w q = 255"
    with b2[of q] pend_t sk0eq show "q \<in> pend s0 \<or> Some q = Some (x, y)" by auto
  next
    fix q r
    assume a: "ff_valid f w h sk0 q \<and> skin s0 ! pix_index w q \<noteq> f \<and> q \<notin> pend s0 \<and>
       Some q \<noteq> Some (x, y) \<and> adjacent q r \<and> ff_valid f w h sk0 r"
    then have "q \<notin> pend t" using pend_t by simp
    with a b3[of q r] sk0eq show "skin s0 ! pix_index w r \<noteq> f" by simp
  qed
  have B1: "bfs_inv f w h sk0 (Some (x, y)) s1"
  proof (cases "x > 0")
    case True
    then have e: "s1 = visit f w (x - 1, y) s0" by (simp add: s1_def)
    from True xy have "incoord w h (x - 1, y)" by (simp add: incoord_def)
    from visit_bfs[OF wf i0 this B0] pks(1) e show ?thesis by simp
  next
    case False
    with B0 show ?thesis by (simp add: s1_def)
  qed
  have B2: "bfs_inv f w h sk0 (Some (x, y)) s2"
  proof (cases "x < w - 1")
    case True
    then have e: "s2 = visit f w (x + 1, y) s1" by (simp add: s2_def)
    from True xy have "incoord w h (x + 1, y)" by (simp add: incoord_def)
    from visit_bfs[OF wf i1 this B1] pks(2) e show ?thesis by simp
  next
    case False
    with B1 show ?thesis by (simp add: s2_def)
  qed
  have B3: "bfs_inv f w h sk0 (Some (x, y)) s3"
  proof (cases "y > 0")
    case True
    then have e: "s3 = visit f w (x, y - 1) s2" by (simp add: s3_def)
    from True xy have "incoord w h (x, y - 1)" by (simp add: incoord_def)
    from visit_bfs[OF wf i2 this B2] pks(3) e show ?thesis by simp
  next
    case False
    with B2 show ?thesis by (simp add: s3_def)
  qed
  have B4: "bfs_inv f w h sk0 (Some (x, y)) s4"
  proof (cases "y < h - 1")
    case True
    then have e: "s4 = visit f w (x, y + 1) s3" by (simp add: s4_def)
    from True xy have "incoord w h (x, y + 1)" by (simp add: incoord_def)
    from visit_bfs[OF wf i3 this B3] pks(4) e show ?thesis by simp
  next
    case False
    with B3 show ?thesis by (simp add: s4_def)
  qed
  have nbdone: "skin s4 ! pix_index w q \<noteq> f" if adj: "adjacent (x, y) q" and qin: "incoord w h q" for q
  proof -
    from pix_index_bound(2)[OF qin] have qlt: "pix_index w q < nat (w * h)" .
    from adjacent_cases[OF adj]
    consider "q = (x - 1, y)" | "q = (x + 1, y)" | "q = (x, y - 1)" | "q = (x, y + 1)" by blast
    then show ?thesis
    proof cases
      case 1
      with qin have "x > 0" by (simp add: incoord_def)
      then have "s1 = visit f w q s0" using 1 by (simp add: s1_def)
      with visit_marks[of w q s0 f] qlt l f255 have "skin s1 ! pix_index w q \<noteq> f" by simp
      then have "skin s2 ! pix_index w q \<noteq> f" unfolding s2_def by (rule visit_if_kept[OF _ f255])
      then have "skin s3 ! pix_index w q \<noteq> f" unfolding s3_def by (rule visit_if_kept[OF _ f255])
      then show ?thesis unfolding s4_def by (rule visit_if_kept[OF _ f255])
    next
      case 2
      with qin have "x < w - 1" by (simp add: incoord_def)
      then have "s2 = visit f w q s1" using 2 by (simp add: s2_def)
      with visit_marks[of w q s1 f] qlt l f255 have "skin s2 ! pix_index w q \<noteq> f" by simp
      then have "skin s3 ! pix_index w q \<noteq> f" unfolding s3_def by (rule visit_if_kept[OF _ f255])
      then show ?thesis unfolding s4_def by (rule visit_if_kept[OF _ f255])
    next
      case 3
      with qin have "y > 0" by (simp add: incoord_def)
      then have "s3 = visit f w q s2" using 3 by (simp add: s3_def)
      with visit_marks[of w q s2 f] qlt l f255 have "skin s3 ! pix_index w q \<noteq> f" by simp
      then show ?thesis unfolding s4_def by (rule visit_if_kept[OF _ f255])
    next
      case 4
      with qin have "y < h - 1" by (simp add: incoord_def)
      then have "s4 = visit f w q s3" using 4 by (simp add: s4_def)
      with visit_marks[of w q s3 f] qlt l f255 show ?thesis by simp
    qed
  qed
  note dD = bfs_invD[OF B4]
  have d1: "deq s4 \<le> enq s4" "enq s4 \<le> deq s4 + peak s4" "fdc s4 \<noteq> 255"
    using dD(1,2,4) .
  have d2: "p \<in> pend s4 \<or> p = (x, y)"
    if "ff_valid f w h sk0 p" "skin s4 ! pix_index w p = 255" for p
    using dD(5)[OF that] by simp
  have d3: "skin s4 ! pix_index w q \<noteq> f"
    if "ff_valid f w h sk0 p" "skin s4 ! pix_index w p \<noteq> f" "p \<notin> pend s4"
       "p \<noteq> (x, y)" "adjacent p q" "ff_valid f w h sk0 q" for p q
    using dD(6)[OF that(1,2,3) _ that(5,6)] that(4) by simp
  have d4: "skin s4 ! 0 \<noteq> f \<or> (0, 0) \<in> pend s4 \<or> (x, y) = (0, 0)"
    using dD(7) by auto
  define v :: byte where "v = word_of_int (fdc s4)"
  have fok: "fdc_ok f (fdc s4)" using i4 by (simp add: ff_inv_def)
  have vf: "v \<noteq> f" unfolding v_def by (rule word_of_int_fdc_ne[OF fok])
  have v255: "v \<noteq> 255" unfolding v_def by (rule word_of_int_fdc_ne_255[OF fok d1(3)])
  from pix_index_bound(2)[OF pin] p have plt: "pix_index w (x, y) < length (skin s4)"
    using l by simp
  have sk5: "skin s5 = (skin s4)[pix_index w (x, y) := v]" by (simp add: s5_def v_def)
  have pe5: "pend s5 = pend s4" by (simp add: pend_def s5_def)
  have at_p: "skin s5 ! pix_index w (x, y) = v" using plt by (simp add: sk5)
  have idx: "pix_index w q = pix_index w (x, y) \<longleftrightarrow> q = (x, y)" if "incoord w h q" for q
    using that pin p pix_index_inj[of w h q "(x, y)"] by auto
  have off_p: "skin s5 ! pix_index w q = skin s4 ! pix_index w q"
    if "incoord w h q" "q \<noteq> (x, y)" for q
    using idx[OF that(1)] that(2) by (simp add: sk5)
  have "bfs_inv f w h sk0 None s5"
    unfolding bfs_inv_def
  proof (intro conjI allI impI)
    show "deq s5 \<le> enq s5" using d1 by (simp add: s5_def)
    show "enq s5 \<le> deq s5 + peak s5" using d1 by (simp add: s5_def)
    show "peak s5 \<le> 4095" using pks(4) p5 by simp
    show "fdc s5 \<noteq> 255" using d1 by (simp add: s5_def)
    show "skin s5 ! 0 \<noteq> f \<or> (0, 0) \<in> pend s5 \<or> None = Some (0, 0)"
    proof (cases "(x, y) = (0, 0)")
      case True
      then have "pix_index w (x, y) = 0" by (simp add: pix_index_def)
      with at_p vf show ?thesis by simp
    next
      case False
      have "incoord w h (0, 0)" using dims by (simp add: incoord_def)
      from off_p[OF this] False have "skin s5 ! 0 = skin s4 ! 0" by (simp add: pix_index_def)
      with d4 False pe5 show ?thesis by auto
    qed
  next
    fix q assume a: "ff_valid f w h sk0 q \<and> skin s5 ! pix_index w q = 255"
    then have qin: "incoord w h q" by (simp add: ff_valid_def)
    have "q \<noteq> (x, y)" using a at_p v255 by auto
    with a off_p[OF qin this] d2[of q] pe5 show "q \<in> pend s5 \<or> Some q = None" by auto
  next
    fix q r
    assume a: "ff_valid f w h sk0 q \<and> skin s5 ! pix_index w q \<noteq> f \<and> q \<notin> pend s5 \<and>
       Some q \<noteq> None \<and> adjacent q r \<and> ff_valid f w h sk0 r"
    then have qin: "incoord w h q" and rin: "incoord w h r" by (simp_all add: ff_valid_def)
    show "skin s5 ! pix_index w r \<noteq> f"
    proof (cases "r = (x, y)")
      case True
      with at_p vf show ?thesis by simp
    next
      case rne: False
      have "skin s4 ! pix_index w r \<noteq> f"
      proof (cases "q = (x, y)")
        case True
        with a nbdone[OF _ rin] show ?thesis by simp
      next
        case False
        with a off_p[OF qin False] pe5 d3[of q r] show ?thesis by simp
      qed
      with off_p[OF rin rne] show ?thesis by simp
    qed
  qed
  with body show ?thesis by simp
qed

lemma fill_reach_valid: "fill_reach f w h sk0 p \<Longrightarrow> ff_valid f w h sk0 p"
  by (induction rule: fill_reach.induct) simp_all

lemma count_fill_pos: "i < length sk \<Longrightarrow> sk ! i = f \<Longrightarrow> 1 \<le> count_fill f sk"
proof -
  assume "i < length sk" "sk ! i = f"
  then have "f \<in> set sk" by (auto simp: set_conv_nth)
  then have "filter (\<lambda>b. b = f) sk \<noteq> []" by (simp add: filter_empty_conv)
  then show ?thesis by (simp add: count_fill_def Suc_leI)
qed

lemma ff_init_bfs:
  assumes "ff_wf f c w h sk0" and "sk0 ! 0 = f" and "c \<noteq> 255"
  shows "bfs_inv f w h sk0 None (ff_init g sk0 c)"
proof -
  from assms(1) have f255: "f \<noteq> 255" by (simp add: ff_wf_def)
  have pe: "pend (ff_init g sk0 c) = {(0, 0)}"
    by (auto simp: pend_def ff_init_def)
  have sk: "skin (ff_init g sk0 c) = sk0" "deq (ff_init g sk0 c) = 0" "enq (ff_init g sk0 c) = 1"
    "peak (ff_init g sk0 c) = 1" "fdc (ff_init g sk0 c) = c"
    by (simp_all add: ff_init_def)
  show ?thesis
    unfolding bfs_inv_def pe sk using assms(3) f255
    by (auto simp: ff_valid_def)
qed

text \<open>
  C5 (as the code has it). \<open>FloodFillSkin\<close>, called on a buffer of \<open>w * h\<close> pixels with
  dimensions between 1 and 4096 whose first pixel is neither the filled colour nor 255,
  ends without an access outside the buffer. Every pixel whose value differed from the
  fill colour keeps its value. When the queue has never held more than 4095 coordinates
  (as is the case when no more than 4095 pixels have the fill colour) and the filled
  colour is not 255, every pixel that can be reached from pixel (0,0) through
  four-connected pixels of the fill colour ends with a value that is neither the fill
  colour nor 255.
\<close>

theorem FloodFillSkin_repair:
  assumes "0 < w" and "w \<le> 4096" and "0 < h" and "h \<le> 4096"
    and "length sk0 = nat (w * h)"
    and "uint (sk0 ! 0) \<noteq> find_filledcolor tbl 0" and "sk0 ! 0 \<noteq> 255"
  shows "\<exists>s'. FloodFillSkin_run tbl g sk0 w h = Some s'
           \<and> FloodFillSkin tbl g sk0 w h = Some (skin s')
           \<and> length (skin s') = length sk0
           \<and> (\<forall>i < length sk0. sk0 ! i \<noteq> sk0 ! 0 \<longrightarrow> skin s' ! i = sk0 ! i)
           \<and> (count_fill (sk0 ! 0) sk0 \<le> 4095 \<longrightarrow> peak s' \<le> 4095)
           \<and> (peak s' \<le> 4095 \<and> find_filledcolor tbl 0 \<noteq> 255 \<longrightarrow>
                (\<forall>p. fill_reach (sk0 ! 0) w h sk0 p \<longrightarrow>
                       skin s' ! pix_index w p \<noteq> sk0 ! 0 \<and> skin s' ! pix_index w p \<noteq> 255))"
proof -
  define f where "f = sk0 ! 0"
  define c where "c = find_filledcolor tbl 0"
  define k where "k = count_fill f sk0"
  have "0 < w * h" using assms(1,3) by simp
  with assms(5) have ne: "sk0 \<noteq> []" and l0: "0 < length sk0" by auto
  have wf: "ff_wf f c w h sk0"
    using assms find_filledcolor_range[of tbl 0] by (simp add: ff_wf_def f_def c_def)
  have k1: "1 \<le> k" unfolding k_def by (rule count_fill_pos[OF l0]) (simp add: f_def)
  define I where "I = (\<lambda>t :: ff_state.
      (enq t + count_fill f (skin t) \<le> k + 1 \<and> peak t \<le> k) \<and>
      (c \<noteq> 255 \<and> peak t \<le> 4095 \<longrightarrow> bfs_inv f w h sk0 None t))"
  have step: "I (ff_body_pure f c w h t)"
    if inv: "ff_inv f w h sk0 t" and It: "I t" and ne: "outpt t \<noteq> inpt t" for t
  proof -
    from It have cnt: "enq t + count_fill f (skin t) \<le> k + 1" "peak t \<le> k"
      and bt: "c \<noteq> 255 \<and> peak t \<le> 4095 \<longrightarrow> bfs_inv f w h sk0 None t"
      by (simp_all add: I_def)
    note a = ff_body_pure_peak_count[OF wf inv ne cnt]
    have "bfs_inv f w h sk0 None (ff_body_pure f c w h t)"
      if c255: "c \<noteq> 255" and pk: "peak (ff_body_pure f c w h t) \<le> 4095"
    proof -
      from ff_body_pure_inv(4)[OF wf inv ne] pk have "peak t \<le> 4095" by simp
      with bt c255 have "bfs_inv f w h sk0 None t" by simp
      from ff_body_pure_bfs[OF wf inv ne c255 this pk] show ?thesis .
    qed
    with a show ?thesis by (simp add: I_def)
  qed
  have inv0: "ff_inv f w h sk0 (ff_init g sk0 c)"
    by (rule ff_init_inv[OF wf]) (simp add: f_def)
  have I0: "I (ff_init g sk0 c)"
  proof -
    have "c \<noteq> 255 \<longrightarrow> bfs_inv f w h sk0 None (ff_init g sk0 c)"
      using ff_init_bfs[OF wf, of g] by (simp add: f_def)
    moreover have "enq (ff_init g sk0 c) + count_fill f (skin (ff_init g sk0 c)) \<le> k + 1"
      "peak (ff_init g sk0 c) \<le> k"
      using k1 by (simp_all add: ff_init_def k_def)
    ultimately show ?thesis by (simp add: I_def)
  qed
  from ff_loop_rule[of f c w h sk0 I, OF wf step inv0 I0] obtain s' where
    run: "ff_loop f c w h (ff_init g sk0 c) = Some s'" and inv': "ff_inv f w h sk0 s'"
    and I': "I s'" and emp: "outpt s' = inpt s'" by blast
  have r: "FloodFillSkin_run tbl g sk0 w h = Some s'"
    using FloodFillSkin_run_loop[OF ne assms(6,7)] run by (simp add: f_def c_def)
  have len: "length (skin s') = length sk0" using inv' by (simp add: ff_inv_def)
  have keep: "\<forall>i < length sk0. sk0 ! i \<noteq> f \<longrightarrow> skin s' ! i = sk0 ! i"
    using inv' by (simp add: ff_inv_def)
  have pkb: "k \<le> 4095 \<longrightarrow> peak s' \<le> 4095" using I' by (auto simp: I_def)
  have reach: "skin s' ! pix_index w p \<noteq> f \<and> skin s' ! pix_index w p \<noteq> 255"
    if pk: "peak s' \<le> 4095" and c255: "c \<noteq> 255" and rp: "fill_reach f w h sk0 p" for p
  proof -
    from I' pk c255 have B: "bfs_inv f w h sk0 None s'" by (simp add: I_def)
    note bD = bfs_invD[OF B]
    from inv' have io: "inpt s' = enq s' mod 4096" "outpt s' = deq s' mod 4096"
      by (simp_all add: ff_inv_def)
    have "deq s' = enq s'"
    proof (rule ccontr)
      assume "deq s' \<noteq> enq s'"
      with bD(1) have lt: "deq s' < enq s'" by simp
      from bD(2,3) have "enq s' - deq s' < 4096" by simp
      from mod_4096_neq[OF lt this] io emp show False by simp
    qed
    then have pe: "pend s' = {}" by (simp add: pend_def)
    have nf: "skin s' ! pix_index w q \<noteq> f" if "fill_reach f w h sk0 q" for q
      using that
    proof (induction rule: fill_reach.induct)
      case start
      from bD(7) pe show ?case by (simp add: pix_index_def)
    next
      case (step p q)
      from bD(6)[OF fill_reach_valid[OF step.hyps(1)] step.IH _ _ step.hyps(2,3)] pe
      show ?case by simp
    qed
    have "skin s' ! pix_index w p \<noteq> 255"
    proof
      assume "skin s' ! pix_index w p = 255"
      from bD(5)[OF fill_reach_valid[OF rp] this] pe show False by simp
    qed
    with nf[OF rp] show ?thesis by simp
  qed
  from r len keep pkb reach show ?thesis
    unfolding f_def[symmetric] c_def[symmetric] k_def[symmetric]
    by (intro exI[of _ s']) (simp add: FloodFillSkin_def)
qed

theorem FloodFillSkin_repair_witness:
  "(0::int) < 3 \<and> (3::int) \<le> 4096 \<and> (0::int) < 1 \<and> (1::int) \<le> 4096
   \<and> length [1, 1, 2 :: byte] = nat (3 * 1)
   \<and> uint ([1, 1, 2 :: byte] ! 0) \<noteq> find_filledcolor black_at_1_table 0
   \<and> [1, 1, 2 :: byte] ! 0 \<noteq> 255
   \<and> fill_reach 1 3 1 [1, 1, 2] (1, 0)
   \<and> (\<exists>s'. FloodFillSkin_run black_at_1_table no_garbage [1, 1, 2] 3 1 = Some s'
           \<and> skin s' ! 2 = 2
           \<and> peak s' \<le> 4095
           \<and> skin s' ! pix_index 3 (1, 0) \<noteq> 1
           \<and> skin s' ! pix_index 3 (1, 0) \<noteq> 255)"
proof -
  let ?sk = "[1, 1, 2 :: byte]"
  have h: "(0::int) < 3" "(3::int) \<le> 4096" "(0::int) < 1" "(1::int) \<le> 4096"
    "length ?sk = nat (3 * 1)"
    "uint (?sk ! 0) \<noteq> find_filledcolor black_at_1_table 0" "?sk ! 0 \<noteq> 255"
    by (simp_all add: black_at_1_filledcolor)
  have v0: "ff_valid 1 3 1 ?sk (0, 0)" by (simp add: ff_valid_def incoord_def pix_index_def)
  have v1: "ff_valid 1 3 1 ?sk (1, 0)" by (simp add: ff_valid_def incoord_def pix_index_def)
  have rch: "fill_reach 1 3 1 ?sk (1, 0)"
    by (rule fill_reach.step[OF fill_reach.start[OF v0] _ v1]) (simp add: adjacent_def)
  have cf: "count_fill (?sk ! 0) ?sk \<le> 4095" by (simp add: count_fill_def)
  have c0: "find_filledcolor black_at_1_table 0 \<noteq> 255" by (simp add: black_at_1_filledcolor)
  from FloodFillSkin_repair[OF h, of no_garbage] obtain s' where
    s: "FloodFillSkin_run black_at_1_table no_garbage ?sk 3 1 = Some s'"
    and keep: "\<forall>i < length ?sk. ?sk ! i \<noteq> ?sk ! 0 \<longrightarrow> skin s' ! i = ?sk ! i"
    and pk: "count_fill (?sk ! 0) ?sk \<le> 4095 \<longrightarrow> peak s' \<le> 4095"
    and re: "peak s' \<le> 4095 \<and> find_filledcolor black_at_1_table 0 \<noteq> 255 \<longrightarrow>
                (\<forall>p. fill_reach (?sk ! 0) 3 1 ?sk p \<longrightarrow>
                       skin s' ! pix_index 3 p \<noteq> ?sk ! 0 \<and> skin s' ! pix_index 3 p \<noteq> 255)"
    by blast
  from pk cf have p: "peak s' \<le> 4095" by blast
  from keep have k2: "skin s' ! 2 = 2" by simp
  from re p c0 rch have "skin s' ! pix_index 3 (1, 0) \<noteq> 1 \<and> skin s' ! pix_index 3 (1, 0) \<noteq> 255"
    by simp
  with s k2 p h rch show ?thesis by blast
qed

text \<open>
  C5 as stated fails: the fill starts at pixel (0,0) only. In the 3 by 1 image with the
  pixels 1, 2, 1 the last pixel lies on the border and has the fill colour 1, and it
  still has it after the repair.
\<close>

theorem FloodFillSkin_border_pixel_kept:
  "FloodFillSkin black_at_1_table no_garbage [1, 2, 1] 3 1 = Some [2, 2, 1]"
  by (simp add: FloodFillSkin_def FloodFillSkin_run_def black_at_1_filledcolor Let_def
      ff_loop.simps ff_body_def FLOODFILL_STEP_def no_garbage_def to_short_def
      FLOODFILL_FIFO_MASK_def FLOODFILL_FIFO_SIZE_def)

end
